theory Spec2Isabelle
  imports Main
begin

section \<open>Text primitives\<close>

text \<open>
  Transcript and article text is a Python \<open>str\<close>; it is modelled as a \<open>string\<close>
  restricted to the ASCII range. The whitespace characters are the ASCII code points
  for which Python's \<open>str.isspace\<close> holds (and which the regular-expression class
  \<open>\s\<close> accepts): tab, line feed, vertical tab, form feed, carriage return, the
  four separators 28 to 31, and the space.
\<close>

definition isspace :: "char \<Rightarrow> bool" where
  "isspace c = (of_char c \<in> {9, 10, 11, 12, 13, 28, 29, 30, 31, 32 :: nat})"

definition isupper :: "char \<Rightarrow> bool" where
  "isupper c = (65 \<le> (of_char c :: nat) \<and> (of_char c :: nat) \<le> 90)"

definition islower :: "char \<Rightarrow> bool" where
  "islower c = (97 \<le> (of_char c :: nat) \<and> (of_char c :: nat) \<le> 122)"

definition lstrip :: "string \<Rightarrow> string" where
  "lstrip s = dropWhile isspace s"

definition rstrip :: "string \<Rightarrow> string" where
  "rstrip s = rev (dropWhile isspace (rev s))"

definition strip :: "string \<Rightarrow> string" where
  "strip s = rstrip (lstrip s)"

text \<open>\<open>str.rstrip('.')\<close>: remove every trailing period.\<close>

definition rstrip_dot :: "string \<Rightarrow> string" where
  "rstrip_dot s = rev (dropWhile (\<lambda>c. c = CHR ''.'') (rev s))"

text \<open>
  \<open>str.splitlines()\<close>: a line ends at a line feed, a carriage return (one boundary
  together with a following line feed), a vertical tab, a form feed or one of the
  separators 28, 29, 30; the terminators are dropped and no empty last line is produced.
\<close>

definition islinebreak :: "char \<Rightarrow> bool" where
  "islinebreak c = (of_char c \<in> {10, 11, 12, 13, 28, 29, 30 :: nat})"

fun splitlines_acc :: "string \<Rightarrow> string \<Rightarrow> string list" where
  "splitlines_acc acc [] = (if acc = [] then [] else [rev acc])"
| "splitlines_acc acc (c # cs) =
     (if c = CHR 0x0D then
        (case cs of
           d # ds \<Rightarrow> if d = CHR 0x0A then rev acc # splitlines_acc [] ds
                     else rev acc # splitlines_acc [] cs
         | [] \<Rightarrow> [rev acc])
      else if islinebreak c then rev acc # splitlines_acc [] cs
      else splitlines_acc (c # acc) cs)"

definition splitlines :: "string \<Rightarrow> string list" where
  "splitlines s = splitlines_acc [] s"

text \<open>\<open>sep.join(parts)\<close>.\<close>

fun join :: "string \<Rightarrow> string list \<Rightarrow> string" where
  "join sep [] = []"
| "join sep [x] = x"
| "join sep (x # y # ys) = x @ sep @ join sep (y # ys)"

text \<open>\<open>s.startswith(p)\<close> with the remainder: \<open>Some rest\<close> when \<open>s = p @ rest\<close>.\<close>

fun strip_prefix :: "string \<Rightarrow> string \<Rightarrow> string option" where
  "strip_prefix [] s = Some s"
| "strip_prefix (p # ps) [] = None"
| "strip_prefix (p # ps) (c # cs) = (if p = c then strip_prefix ps cs else None)"

lemma strip_prefixD: "strip_prefix p s = Some r \<Longrightarrow> s = p @ r"
  by (induction p s rule: strip_prefix.induct) (auto split: if_splits)

lemma strip_prefix_append: "strip_prefix p (p @ r) = Some r"
  by (induction p) simp_all

text \<open>The exceptions of the modelled code.\<close>

datatype error = EOFError | TypeError

section \<open>Title-newline segmentation (text_to_utterances.py)\<close>

text \<open>
  One row of the data frame a parser returns; \<open>utterance_text\<close> is its \<open>text\<close>
  column. \<open>utterance_id\<close> is the sequence index:
  the title-newline parser stores it as a number, the regular-expression parsers store
  the debate id, an underscore and this number in decimal.
\<close>

record utterance =
  utterance_id :: nat
  debate_id :: string
  speaker :: string
  utterance_text :: string

text \<open>
  \<open>is_speaker_line\<close>: the stripped line is at most \<open>max_len\<close> characters, ends with a
  period and matches
  \<^verbatim>\<open>^(Mr\.|Ms\.|Mrs\.|President|The President|Governor|Gov\.|Senator|Sen\.|Question|Q|Moderator)(?:\s+[A-Z][a-z]+)?\.$\<close>.
  The pattern is anchored at both ends, so it matches exactly when some prefix of the
  list is followed by the optional name and the final period.
\<close>

definition prefixes :: "string list" where
  "prefixes = [''Mr.'', ''Ms.'', ''Mrs.'', ''President'', ''The President'',
     ''Governor'', ''Gov.'', ''Senator'', ''Sen.'', ''Question'', ''Q'', ''Moderator'']"

text \<open>The part after the prefix: \<^verbatim>\<open>(?:\s+[A-Z][a-z]+)?\.$\<close>.\<close>

definition name_and_period :: "string \<Rightarrow> bool" where
  "name_and_period r =
     (r = ''.'' \<or>
      (r \<noteq> [] \<and> isspace (hd r) \<and>
       (case dropWhile isspace r of
          [] \<Rightarrow> False
        | u # t \<Rightarrow> isupper u \<and> takeWhile islower t \<noteq> [] \<and> dropWhile islower t = ''.'')))"

definition is_speaker_line :: "nat \<Rightarrow> string \<Rightarrow> bool" where
  "is_speaker_line max_len line0 =
     (let line = strip line0 in
      length line \<le> max_len \<and> line \<noteq> [] \<and> last line = CHR ''.'' \<and>
      list_ex (\<lambda>p. case strip_prefix p line of None \<Rightarrow> False | Some r \<Rightarrow> name_and_period r)
        prefixes)"

text \<open>
  The loop of \<open>parse_title_newline_format\<close>. Its state is the list of emitted
  (speaker, text) pairs, \<open>current_speaker\<close> (\<open>None\<close> at the start) and
  \<open>current_utterance\<close>. An empty string and an empty list are false in Python, so
  \<open>current_speaker and current_utterance\<close> holds when the speaker is set and not empty
  and at least one line has been collected. The reset of \<open>current_utterance\<close> is inside
  that conditional, as in the source.
\<close>

definition flush :: "string option \<Rightarrow> string list \<Rightarrow> (string \<times> string) option" where
  "flush current_speaker current_utterance =
     (case current_speaker of
        None \<Rightarrow> None
      | Some s \<Rightarrow>
          if s \<noteq> [] \<and> current_utterance \<noteq> []
          then Some (rstrip_dot s, strip (join '' '' current_utterance))
          else None)"

fun title_loop ::
  "string list \<Rightarrow> (string \<times> string) list \<Rightarrow> string option \<Rightarrow> string list \<Rightarrow> (string \<times> string) list"
where
  "title_loop [] utterances current_speaker current_utterance =
     (case flush current_speaker current_utterance of
        Some u \<Rightarrow> utterances @ [u]
      | None \<Rightarrow> utterances)"
| "title_loop (line # lines) utterances current_speaker current_utterance =
     (if is_speaker_line 30 line then
        (case flush current_speaker current_utterance of
           Some u \<Rightarrow> title_loop lines (utterances @ [u]) (Some (strip line)) []
         | None \<Rightarrow> title_loop lines utterances (Some (strip line)) current_utterance)
      else title_loop lines utterances current_speaker (current_utterance @ [strip line]))"

text \<open>The data frame: \<open>utterance_id\<close> is \<open>range(1, len(df) + 1)\<close>.\<close>

definition number_rows :: "string \<Rightarrow> (string \<times> string) list \<Rightarrow> utterance list" where
  "number_rows did rows =
     map (\<lambda>(i, (s, t)). \<lparr>utterance_id = i, debate_id = did, speaker = s, utterance_text = t\<rparr>)
       (zip [1 ..< length rows + 1] rows)"

definition parse_title_newline_format :: "string \<Rightarrow> string \<Rightarrow> utterance list" where
  "parse_title_newline_format text did =
     number_rows did (title_loop (splitlines text) [] None [])"

section \<open>All-caps segmentation (text_to_utterances.py)\<close>

datatype caps_format = all_caps_inline | all_caps_newline

text \<open>The character class \<^verbatim>\<open>[A-Z ]\<close>.\<close>

definition islabelchar :: "char \<Rightarrow> bool" where
  "islabelchar c = (isupper c \<or> c = CHR '' '')"

text \<open>
  \<^verbatim>\<open>([A-Z ]{2,}):\<close> at the head of the text: the group and the text after the colon.
  The repetition is greedy and a colon is not in the class, so only the longest run of
  class characters can be followed by the colon; giving characters back never helps.
\<close>

definition label_at :: "string \<Rightarrow> (string \<times> string) option" where
  "label_at s =
     (let run = takeWhile islabelchar s in
      if 2 \<le> length run then
        (case dropWhile islabelchar s of
           c # r \<Rightarrow> if c = CHR '':'' then Some (run, r) else None
         | [] \<Rightarrow> None)
      else None)"

text \<open>The lookahead \<^verbatim>\<open>(?=\n[A-Z ]{2,}:|\Z)\<close>.\<close>

definition lookahead :: "string \<Rightarrow> bool" where
  "lookahead s =
     (case s of [] \<Rightarrow> True | c # r \<Rightarrow> c = CHR 0x0A \<and> label_at r \<noteq> None)"

text \<open>
  The lazy group \<^verbatim>\<open>(.*?)\<close> under DOTALL followed by the lookahead: the shortest
  prefix after which the lookahead holds. The result is the group and the text at which
  the match ends. The lookahead holds at the end of the text, so this part of the
  pattern always matches.
\<close>

fun lazy_body :: "string \<Rightarrow> string \<times> string" where
  "lazy_body [] = ([], [])"
| "lazy_body (c # cs) =
     (if lookahead (c # cs) then ([], c # cs)
      else (let (b, r) = lazy_body cs in (c # b, r)))"

text \<open>
  Between the colon and the group: \<^verbatim>\<open>\s?\<close> for the inline pattern (greedy: one
  whitespace character is consumed when there is one, and since the rest of the pattern
  always matches it is never given back), \<^verbatim>\<open>\n\<close> for the newline pattern.
\<close>

fun after_colon :: "caps_format \<Rightarrow> string \<Rightarrow> string option" where
  "after_colon all_caps_inline [] = Some []"
| "after_colon all_caps_inline (c # r) = (if isspace c then Some r else Some (c # r))"
| "after_colon all_caps_newline [] = None"
| "after_colon all_caps_newline (c # r) = (if c = CHR 0x0A then Some r else None)"

text \<open>
  One match attempt of \<open>PATTERNS[fmt]\<close> at the head of the text: groups 1 and 2 and
  the text at the end of the match. The leading \<^verbatim>\<open>\n?\<close> consumes a line feed when
  there is one; without it the label would have to start at that line feed, which is
  not in the class.
\<close>

definition match_at :: "caps_format \<Rightarrow> string \<Rightarrow> (string \<times> string \<times> string) option" where
  "match_at fmt s =
     (let s1 = (case s of [] \<Rightarrow> [] | c # r \<Rightarrow> if c = CHR 0x0A then r else c # r) in
      case label_at s1 of
        None \<Rightarrow> None
      | Some (lab, s2) \<Rightarrow>
          (case after_colon fmt s2 of
             None \<Rightarrow> None
           | Some s3 \<Rightarrow> (let (b, r) = lazy_body s3 in Some (lab, b, r))))"

lemma lazy_body_length: "length (snd (lazy_body s)) \<le> length s"
  by (induction s) (auto split: prod.splits)

lemma after_colon_length: "after_colon fmt s = Some r \<Longrightarrow> length r \<le> length s"
  by (cases fmt; cases s) (auto split: if_splits)

lemma label_at_length: "label_at s = Some (lab, r) \<Longrightarrow> length r < length s"
proof -
  assume a: "label_at s = Some (lab, r)"
  have "length (dropWhile islabelchar s) \<le> length s"
    by (rule length_dropWhile_le)
  with a show ?thesis
    by (auto simp: label_at_def Let_def split: if_splits list.splits)
qed

lemma match_at_length:
  assumes "match_at fmt s = Some (lab, b, r)"
  shows "length r < length s"
proof -
  define s1 where "s1 = (case s of [] \<Rightarrow> [] | c # r \<Rightarrow> if c = CHR 0x0A then r else c # r)"
  have l1: "length s1 \<le> length s"
    by (cases s) (auto simp: s1_def)
  from assms obtain s2 s3 where
    la: "label_at s1 = Some (lab, s2)" and ac: "after_colon fmt s2 = Some s3"
    and lb: "lazy_body s3 = (b, r)"
    by (auto simp: match_at_def s1_def [symmetric] Let_def split: option.splits prod.splits)
  have "length r \<le> length s3"
    using lazy_body_length [of s3] lb by simp
  also have "\<dots> \<le> length s2"
    using ac by (rule after_colon_length)
  also have "\<dots> < length s1"
    using la by (rule label_at_length)
  finally show ?thesis
    using l1 by simp
qed

text \<open>
  \<open>re.finditer\<close>: the pattern is tried at each position from left to right; after a
  match the search goes on where the match ended. No part of the two patterns looks
  behind the current position, so the search is a function of the remaining text. A
  match is never empty.
\<close>

function finditer :: "caps_format \<Rightarrow> string \<Rightarrow> (string \<times> string) list" where
  "finditer fmt [] = []"
| "finditer fmt (c # cs) =
     (case match_at fmt (c # cs) of
        None \<Rightarrow> finditer fmt cs
      | Some (lab, b, r) \<Rightarrow> (lab, b) # finditer fmt r)"
  by pat_completeness auto
termination
  by (relation "measure (\<lambda>(fmt, s). length s)") (auto dest: match_at_length)

text \<open>\<open>s.replace("\n", " ")\<close>.\<close>

definition replace_newlines :: "string \<Rightarrow> string" where
  "replace_newlines s = map (\<lambda>c. if c = CHR 0x0A then CHR '' '' else c) s"

fun regex_rows :: "string \<Rightarrow> nat \<Rightarrow> (string \<times> string) list \<Rightarrow> utterance list" where
  "regex_rows did i [] = []"
| "regex_rows did i ((g1, g2) # ms) =
     \<lparr>utterance_id = i + 1, debate_id = did, speaker = strip g1,
      utterance_text = replace_newlines (strip g2)\<rparr> # regex_rows did (i + 1) ms"

definition parse_regex_format :: "string \<Rightarrow> caps_format \<Rightarrow> string \<Rightarrow> utterance list" where
  "parse_regex_format text fmt did = regex_rows did 0 (finditer fmt text)"

section \<open>Speaker role resolution (normalize_utterances.py)\<close>

datatype role = Candidate_R | Candidate_D | Candidate_I | Moderator

text \<open>\<open>str.lower\<close> and \<open>str.upper\<close> on the ASCII range.\<close>

definition lower_char :: "char \<Rightarrow> char" where
  "lower_char c = (if isupper c then char_of (of_char c + (32 :: nat)) else c)"

definition upper_char :: "char \<Rightarrow> char" where
  "upper_char c = (if islower c then char_of (of_char c - (32 :: nat)) else c)"

definition lower :: "string \<Rightarrow> string" where
  "lower s = map lower_char s"

definition upper :: "string \<Rightarrow> string" where
  "upper s = map upper_char s"

text \<open>\<open>re.sub(r"\s+", " ", s)\<close>: every run of whitespace becomes one space.\<close>

fun collapse_ws :: "string \<Rightarrow> string" where
  "collapse_ws [] = []"
| "collapse_ws [c] = (if isspace c then '' '' else [c])"
| "collapse_ws (c # d # cs) =
     (if isspace c then (if isspace d then collapse_ws (d # cs) else CHR '' '' # collapse_ws (d # cs))
      else c # collapse_ws (d # cs))"

text \<open>\<open>str.split()\<close>: the maximal runs of characters that are not whitespace.\<close>

fun split_acc :: "string \<Rightarrow> string \<Rightarrow> string list" where
  "split_acc acc [] = (if acc = [] then [] else [rev acc])"
| "split_acc acc (c # cs) =
     (if isspace c then (if acc = [] then split_acc [] cs else rev acc # split_acc [] cs)
      else split_acc (c # acc) cs)"

definition split_ws :: "string \<Rightarrow> string list" where
  "split_ws s = split_acc [] s"

text \<open>\<open>sub in s\<close> on strings.\<close>

fun contains :: "string \<Rightarrow> string \<Rightarrow> bool" where
  "contains sub [] = (sub = [])"
| "contains sub (c # cs) = (strip_prefix sub (c # cs) \<noteq> None \<or> contains sub cs)"

text \<open>
  \<open>str.title\<close>: a letter that follows a letter is lowered, any other letter is
  raised.
\<close>

fun title_from :: "bool \<Rightarrow> string \<Rightarrow> string" where
  "title_from prev [] = []"
| "title_from prev (c # cs) =
     (if islower c \<or> isupper c
      then (if prev then lower_char c else upper_char c) # title_from True cs
      else c # title_from False cs)"

text \<open>
  \<open>normalize_speaker_name\<close>. A missing cell of the data frame (\<open>pd.isna\<close>) is
  \<open>None\<close>. The name is stripped before \<^verbatim>\<open>\.+$\<close> is removed, so the pattern removes
  every trailing period.
\<close>

definition normalize_speaker_name :: "string option \<Rightarrow> string" where
  "normalize_speaker_name name =
     (case name of
        None \<Rightarrow> []
      | Some n \<Rightarrow> title_from False (collapse_ws (rstrip_dot (strip n))))"

text \<open>
  \<^verbatim>\<open>\(.*?\)\<close> after an opening parenthesis: the nearest closing parenthesis, with no
  line feed before it (the dot does not match a line feed).
\<close>

fun close_paren :: "string \<Rightarrow> string option" where
  "close_paren [] = None"
| "close_paren (c # cs) =
     (if c = CHR '')'' then Some cs
      else if c = CHR 0x0A then None
      else close_paren cs)"

lemma close_paren_length: "close_paren s = Some r \<Longrightarrow> length r < length s"
  by (induction s) (auto split: if_splits)

text \<open>\<open>re.sub(r"\(.*?\)", "", s)\<close>.\<close>

function remove_parens :: "string \<Rightarrow> string" where
  "remove_parens [] = []"
| "remove_parens (c # cs) =
     (if c = CHR ''(''
      then (case close_paren cs of
              Some r \<Rightarrow> remove_parens r
            | None \<Rightarrow> c # remove_parens cs)
      else c # remove_parens cs)"
  by pat_completeness auto
termination
  by (relation "measure length") (auto dest: close_paren_length)

definition clean_for_matching :: "string \<Rightarrow> string" where
  "clean_for_matching name =
     collapse_ws (filter (\<lambda>c. islower c \<or> isspace c) (remove_parens (strip (lower name))))"

text \<open>
  The state \<open>match_role\<close> works on: the module's \<open>ambiguous_resolution_cache\<close>, a
  dictionary from debate id to role, and the lines still to be read from standard
  input, one per call of \<open>input\<close>. \<open>input\<close> raises \<open>EOFError\<close> when no line is left.
\<close>

record resolver_state =
  ambiguous_resolution_cache :: "string \<rightharpoonup> role"
  stdin :: "string list"

text \<open>The \<open>for\<close> loop over \<open>canonical_map.items()\<close>, a dictionary in its insertion order.\<close>

definition overlaps :: "string list \<Rightarrow> string \<Rightarrow> bool" where
  "overlaps name_tokens full_name =
     (full_name \<noteq> [] \<and>
      set name_tokens \<inter> set (split_ws (clean_for_matching full_name)) \<noteq> {})"

fun roster_loop :: "string list \<Rightarrow> (string \<times> role) list \<Rightarrow> role option" where
  "roster_loop name_tokens [] = None"
| "roster_loop name_tokens ((full_name, r) # items) =
     (if full_name = [] then roster_loop name_tokens items
      else if set name_tokens \<inter> set (split_ws (clean_for_matching full_name)) \<noteq> {}
      then Some r
      else roster_loop name_tokens items)"

definition generic_moderator :: "string \<Rightarrow> bool" where
  "generic_moderator name_clean =
     list_ex (\<lambda>k. contains k name_clean) [''moderator'', ''question'', ''q'', ''audience'']"

definition choice_role :: "string \<Rightarrow> role option" where
  "choice_role choice =
     (if choice = ''R'' then Some Candidate_R
      else if choice = ''D'' then Some Candidate_D
      else if choice = ''I'' then Some Candidate_I
      else if choice = ''M'' then Some Moderator
      else None)"

text \<open>
  The \<open>while True\<close> loop: it reads lines until one is a valid choice. The lines of the
  input are finite, so the loop ends with a role or with \<open>EOFError\<close>.
\<close>

fun ask :: "string list \<Rightarrow> error + (role \<times> string list)" where
  "ask [] = Inl EOFError"
| "ask (l # ls) =
     (case choice_role (upper (strip l)) of
        Some r \<Rightarrow> Inr (r, ls)
      | None \<Rightarrow> ask ls)"

definition resolve_president :: "string \<Rightarrow> resolver_state \<Rightarrow> error + (role \<times> resolver_state)" where
  "resolve_president did st =
     (case ambiguous_resolution_cache st did of
        Some r \<Rightarrow> Inr (r, st)
      | None \<Rightarrow>
          (case ask (stdin st) of
             Inl e \<Rightarrow> Inl e
           | Inr (resolved, ls) \<Rightarrow>
               Inr (resolved,
                    st\<lparr>ambiguous_resolution_cache := (ambiguous_resolution_cache st)(did \<mapsto> resolved),
                       stdin := ls\<rparr>)))"

definition match_role ::
  "string \<Rightarrow> (string \<times> role) list \<Rightarrow> string \<Rightarrow> resolver_state \<Rightarrow> error + (role \<times> resolver_state)"
where
  "match_role name canonical_map did st =
     (let name_clean = clean_for_matching name;
          name_tokens = split_ws name_clean
      in case roster_loop name_tokens canonical_map of
           Some r \<Rightarrow> Inr (r, st)
         | None \<Rightarrow>
             if generic_moderator name_clean then Inr (Moderator, st)
             else if contains ''president'' name_clean then resolve_president did st
             else Inr (Moderator, st))"

text \<open>
  The loop of \<open>normalize_all_speakers\<close> over the speakers of one debate: every speaker
  is normalised and resolved, the state is threaded through the calls.
\<close>

fun resolve_speakers ::
  "string option list \<Rightarrow> (string \<times> role) list \<Rightarrow> string \<Rightarrow> resolver_state \<Rightarrow>
     error + (role list \<times> resolver_state)"
where
  "resolve_speakers [] canonical_map did st = Inr ([], st)"
| "resolve_speakers (sp # sps) canonical_map did st =
     (case match_role (normalize_speaker_name sp) canonical_map did st of
        Inl e \<Rightarrow> Inl e
      | Inr (r, st') \<Rightarrow>
          (case resolve_speakers sps canonical_map did st' of
             Inl e \<Rightarrow> Inl e
           | Inr (rs, st'') \<Rightarrow> Inr (r # rs, st'')))"

section \<open>Article extraction (media_parse_factiva.py)\<close>

text \<open>
  \<open>re.search\<close> of \<^verbatim>\<open>(?m)^\s*TAG\s*$\<close> for a tag that starts with a character that
  is not whitespace. At a line start the first \<^verbatim>\<open>\s*\<close> can only stop at the end of
  the whitespace there (which may span line feeds), the tag must follow, and the second
  \<^verbatim>\<open>\s*\<close> must be able to stop at the end of the text or before a line feed:
  \<open>line_end_after\<close> skips the whitespace that is not a line feed and looks at what
  comes next.
\<close>

definition line_end_after :: "string \<Rightarrow> bool" where
  "line_end_after r =
     (case dropWhile (\<lambda>c. isspace c \<and> c \<noteq> CHR 0x0A) r of [] \<Rightarrow> True | c # _ \<Rightarrow> c = CHR 0x0A)"

definition tag_here :: "string \<Rightarrow> string \<Rightarrow> bool" where
  "tag_here tag s =
     (case strip_prefix tag (dropWhile isspace s) of None \<Rightarrow> False | Some r \<Rightarrow> line_end_after r)"

text \<open>
  The search tries every position from left to right; \<open>bol\<close> says whether the
  position is at the start of the text or after a line feed.
\<close>

fun search_tag :: "string \<Rightarrow> bool \<Rightarrow> string \<Rightarrow> bool" where
  "search_tag tag bol [] = (bol \<and> tag_here tag [])"
| "search_tag tag bol (c # cs) =
     ((bol \<and> tag_here tag (c # cs)) \<or> search_tag tag (c = CHR 0x0A) cs)"

definition is_real_article :: "string \<Rightarrow> bool" where
  "is_real_article block =
     (let has_pd = search_tag ''PD'' True block;
          has_sn = search_tag ''SN'' True block;
          has_lp = search_tag ''LP'' True block
      in has_pd \<and> has_sn \<and> has_lp)"

text \<open>\<open>text.replace("\r\n", "\n")\<close>.\<close>

fun replace_crlf :: "string \<Rightarrow> string" where
  "replace_crlf [] = []"
| "replace_crlf [c] = [c]"
| "replace_crlf (c # d # cs) =
     (if c = CHR 0x0D \<and> d = CHR 0x0A then CHR 0x0A # replace_crlf cs
      else c # replace_crlf (d # cs))"

definition replace_char :: "char \<Rightarrow> char \<Rightarrow> string \<Rightarrow> string" where
  "replace_char a b s = map (\<lambda>c. if c = a then b else c) s"

text \<open>
  \<open>re.sub(r"\n{3,}", "\n\n", t)\<close>: a run of three or more line feeds becomes two.
  The first argument counts the line feeds of the run being read.
\<close>

fun collapse_newlines :: "nat \<Rightarrow> string \<Rightarrow> string" where
  "collapse_newlines k [] = replicate (min k 2) (CHR 0x0A)"
| "collapse_newlines k (c # cs) =
     (if c = CHR 0x0A then collapse_newlines (Suc k) cs
      else replicate (min k 2) (CHR 0x0A) @ c # collapse_newlines 0 cs)"

definition clean_block :: "string \<Rightarrow> string" where
  "clean_block text =
     strip (collapse_newlines 0
       (replace_char (CHR 0x0C) (CHR 0x0A) (replace_char (CHR 0x0D) (CHR 0x0A) (replace_crlf text))))"

text \<open>
  \<open>HD_SPLIT.split(raw)\<close> with \<^verbatim>\<open>(?m)(?=^\s*HD\s*$)\<close>: the pattern matches the empty
  string at every line start from which blank space, \<open>HD\<close> and blank space up to a
  line end follow, and the text is cut at each of these positions. A match at the
  first position gives an empty first chunk.
\<close>

fun hd_split :: "string \<Rightarrow> bool \<Rightarrow> string \<Rightarrow> string list" where
  "hd_split acc bol [] = [rev acc]"
| "hd_split acc bol (c # cs) =
     (if bol \<and> tag_here ''HD'' (c # cs) then rev acc # hd_split [c] (c = CHR 0x0A) cs
      else hd_split (c # acc) (c = CHR 0x0A) cs)"

text \<open>
  The blocks of \<open>split_factiva_file\<close> before the filter: the cleaned text is cut, the
  first chunk is dropped unless its first line is an \<open>HD\<close> line, blank chunks are
  dropped and the others cleaned.
\<close>

definition article_blocks :: "string \<Rightarrow> string list" where
  "article_blocks raw =
     (let chunks = hd_split [] True (clean_block raw);
          first_line = (case splitlines (hd chunks) of [] \<Rightarrow> [] | l # _ \<Rightarrow> l);
          chunks' = (if \<not> tag_here ''HD'' first_line then tl chunks else chunks)
      in map clean_block (filter (\<lambda>c. strip c \<noteq> []) chunks'))"

definition split_factiva_file :: "string \<Rightarrow> string list" where
  "split_factiva_file raw = filter is_real_article (article_blocks raw)"

text \<open>
  The specification's words: a tag is in the chunk "as a standalone line" when some
  line of the chunk (\<open>block.split("\n")\<close>), with surrounding whitespace ignored, is
  the tag.
\<close>

fun lines_nl :: "string \<Rightarrow> string list" where
  "lines_nl [] = [[]]"
| "lines_nl (c # cs) =
     (if c = CHR 0x0A then [] # lines_nl cs
      else (case lines_nl cs of [] \<Rightarrow> [[c]] | l # ls \<Rightarrow> (c # l) # ls))"

definition standalone_line :: "string \<Rightarrow> string \<Rightarrow> bool" where
  "standalone_line tag block = list_ex (\<lambda>l. strip l = tag) (lines_nl block)"


section \<open>Article body normalisation (media_final_adjustments.py)\<close>

text \<open>
  A row of the data frame. A cell of the \<open>body\<close> column that is not a string (the
  missing value read from an empty field) is \<open>None\<close>. The other columns of the file
  are carried along unchanged and are left out.
\<close>

record article =
  year :: int
  theme :: string
  outlet :: string
  body :: "string option"
  body_words :: nat
  body_len :: nat

definition MIN_WORDS :: nat where
  "MIN_WORDS = 100"

text \<open>\<open>s.endswith(suffix)\<close>.\<close>

definition ends_with :: "string \<Rightarrow> string \<Rightarrow> bool" where
  "ends_with suffix s = (strip_prefix (rev suffix) (rev s) \<noteq> None)"

definition isdigit :: "char \<Rightarrow> bool" where
  "isdigit c = (48 \<le> (of_char c :: nat) \<and> (of_char c :: nat) \<le> 57)"

text \<open>
  \<^verbatim>\<open>.+@.+\..+\<close> against a whole string: an at sign after at least one character, and
  after it a period with at least one character on each side.
\<close>

definition user_at_host :: "string \<Rightarrow> bool" where
  "user_at_host s =
     list_ex (\<lambda>i. 1 \<le> i \<and> s ! i = CHR ''@'' \<and>
        list_ex (\<lambda>k. i + 2 \<le> k \<and> k + 2 \<le> length s \<and> s ! k = CHR ''.'') [0 ..< length s])
       [0 ..< length s]"

text \<open>\<^verbatim>\<open>\d{4}\<close> at the head: the text after four digits.\<close>

definition four_digits :: "string \<Rightarrow> string option" where
  "four_digits s =
     (if 4 \<le> length s \<and> list_all isdigit (take 4 s) then Some (drop 4 s) else None)"

text \<open>
  \<open>BOILERPLATE_LINE_PATTERNS\<close>, each tried with \<open>re.match\<close> on a stripped line. The
  line comes from \<open>splitlines\<close>, so it has no line feed: the dot matches each of its
  characters and \<^verbatim>\<open>$\<close> is its end.
\<close>

definition copyright_line :: "string \<Rightarrow> bool" where
  "copyright_line line =
     (case strip_prefix ''Copyright '' line of
        None \<Rightarrow> False
      | Some r \<Rightarrow>
          (case four_digits r of
             None \<Rightarrow> False
           | Some m \<Rightarrow>
               (ends_with ''All Rights Reserved'' m \<and> 20 \<le> length m) \<or>
               (ends_with ''All Rights Reserved.'' m \<and> 21 \<le> length m)))"

definition document_line :: "string \<Rightarrow> bool" where
  "document_line line =
     (case strip_prefix ''Document '' line of
        None \<Rightarrow> False
      | Some r \<Rightarrow> r \<noteq> [] \<and> list_all (\<lambda>c. isupper c \<or> isdigit c) r)"

definition rule_line :: "string \<Rightarrow> bool" where
  "rule_line line = (let d = strip line in 3 \<le> length d \<and> list_all (\<lambda>c. c = CHR ''-'') d)"

definition boilerplate_line :: "string \<Rightarrow> bool" where
  "boilerplate_line line =
     (strip_prefix ''Appeared in the '' line \<noteq> None \<or>
      (case strip_prefix ''Write to '' line of None \<Rightarrow> False | Some r \<Rightarrow> user_at_host r) \<or>
      copyright_line line \<or>
      line = ''All Rights Reserved'' \<or> line = ''All Rights Reserved.'' \<or>
      line = ''Dow Jones & Company, Inc.'' \<or>
      line = ''N.Y.P. Holdings, Inc.'' \<or>
      line = ''The New York Times Company'' \<or>
      document_line line \<or>
      line \<in> set [''SC'', ''ED'', ''PG'', ''LA'', ''CY'', ''NS'', ''RE'', ''PUB'', ''AN'', ''IPD'',
                   ''SE'', ''IN''] \<or>
      line = ''English'' \<or>
      ends_with ''@nypost.com'' line \<or>
      strip_prefix ''@nypost.com'' line \<noteq> None \<or>
      rule_line line \<or>
      strip_prefix ''Subscribe to WSJ'' line \<noteq> None)"

text \<open>
  \<open>TAIL_TRIM_PATTERNS\<close>. Each is \<^verbatim>\<open>(?s)(.*?)\n+TAIL\s*$\<close>: the lazy group is the
  shortest prefix after which the rest of the pattern matches up to the end of the
  text. The rest starts with a run of line feeds, all of which \<^verbatim>\<open>\n+\<close> must take since
  no tail starts with a line feed. Under DOTALL the dot matches every character.
\<close>

definition after_newlines :: "string \<Rightarrow> string option" where
  "after_newlines s =
     (case s of
        [] \<Rightarrow> None
      | c # cs \<Rightarrow> if c = CHR 0x0A then Some (dropWhile (\<lambda>c. c = CHR 0x0A) cs) else None)"

definition copyright_tail :: "string \<Rightarrow> bool" where
  "copyright_tail s =
     (case after_newlines s of
        None \<Rightarrow> False
      | Some r \<Rightarrow>
          (case strip_prefix ''Copyright '' r of
             None \<Rightarrow> False
           | Some r1 \<Rightarrow>
               (case four_digits r1 of
                  None \<Rightarrow> False
                | Some m \<Rightarrow> ends_with ''All Rights Reserved.'' (rstrip m) \<and> 21 \<le> length (rstrip m))))"

definition write_to_tail :: "string \<Rightarrow> bool" where
  "write_to_tail s =
     (case after_newlines s of
        None \<Rightarrow> False
      | Some r \<Rightarrow> (case strip_prefix ''Write to '' r of None \<Rightarrow> False | Some m \<Rightarrow> user_at_host m))"

definition subscribe_tail :: "string \<Rightarrow> bool" where
  "subscribe_tail s =
     (case after_newlines s of
        None \<Rightarrow> False
      | Some r \<Rightarrow> strip_prefix ''Subscribe to WSJ'' r \<noteq> None)"

text \<open>\<open>re.match\<close> of a tail pattern: group 1 when the pattern matches.\<close>

fun tail_match :: "(string \<Rightarrow> bool) \<Rightarrow> string \<Rightarrow> string option" where
  "tail_match tail [] = (if tail [] then Some [] else None)"
| "tail_match tail (c # cs) =
     (if tail (c # cs) then Some [] else map_option ((#) c) (tail_match tail cs))"

definition tail_trim :: "(string \<Rightarrow> bool) \<Rightarrow> string \<Rightarrow> string" where
  "tail_trim tail t = (case tail_match tail t of Some g \<Rightarrow> rstrip g | None \<Rightarrow> t)"

definition strip_boilerplate_lines :: "string option \<Rightarrow> string option" where
  "strip_boilerplate_lines text =
     (case text of
        None \<Rightarrow> None
      | Some s \<Rightarrow>
          if strip s = [] then Some s
          else
            (let cleaned = filter (\<lambda>ln. strip ln = [] \<or> \<not> boilerplate_line (strip ln)) (splitlines s);
                 t = join [CHR 0x0A] cleaned
             in Some (tail_trim subscribe_tail (tail_trim write_to_tail (tail_trim copyright_tail t)))))"

text \<open>
  \<open>normalize_nyp_bullets\<close>: \<open>re.sub\<close> of \<^verbatim>\<open>(?m)^\s*ns\s*(?=\S)\<close> by the empty string.
  At a line start, whitespace, \<open>ns\<close> and whitespace are removed when a character that
  is not whitespace follows. \<open>bullet_at\<close> gives the text after the match and whether the
  match ended with a line feed, that is, whether the next position is a line start.
\<close>

definition bullet_at :: "string \<Rightarrow> (bool \<times> string) option" where
  "bullet_at s =
     (case strip_prefix ''ns'' (dropWhile isspace s) of
        None \<Rightarrow> None
      | Some r \<Rightarrow>
          (case dropWhile isspace r of
             [] \<Rightarrow> None
           | x # xs \<Rightarrow>
               Some (takeWhile isspace r \<noteq> [] \<and> last (takeWhile isspace r) = CHR 0x0A, x # xs)))"

lemma strip_prefix_length: "strip_prefix p s = Some r \<Longrightarrow> length r \<le> length s"
  by (induction p s rule: strip_prefix.induct) (auto split: if_splits)

lemma bullet_at_length:
  assumes "bullet_at s = Some (b, r)"
  shows "length r < length s"
proof -
  from assms obtain r1 where r1: "strip_prefix ''ns'' (dropWhile isspace s) = Some r1"
    and r: "dropWhile isspace r1 = r"
    by (auto simp: bullet_at_def split: option.splits list.splits)
  from r1 have "dropWhile isspace s = ''ns'' @ r1"
    by (rule strip_prefixD)
  then have "length r1 < length (dropWhile isspace s)" by simp
  also have "\<dots> \<le> length s" by (rule length_dropWhile_le)
  finally have "length r1 < length s" .
  moreover have "length r \<le> length r1"
    unfolding r [symmetric] by (rule length_dropWhile_le)
  ultimately show ?thesis by simp
qed

function nyp_sub :: "bool \<Rightarrow> string \<Rightarrow> string" where
  "nyp_sub bol [] = []"
| "nyp_sub bol (c # cs) =
     (if bol then
        (case bullet_at (c # cs) of
           Some (bol', r) \<Rightarrow> nyp_sub bol' r
         | None \<Rightarrow> c # nyp_sub (c = CHR 0x0A) cs)
      else c # nyp_sub (c = CHR 0x0A) cs)"
  by pat_completeness auto
termination
  by (relation "measure (\<lambda>(b, s). length s)") (auto dest: bullet_at_length)

definition normalize_nyp_bullets :: "string option \<Rightarrow> string option" where
  "normalize_nyp_bullets text = map_option (nyp_sub True) text"

text \<open>
  \<open>word_count\<close>: the number of matches of \<^verbatim>\<open>\b\w+\b\<close>, that is of maximal runs of
  word characters (letters, digits, underscore).
\<close>

definition isword :: "char \<Rightarrow> bool" where
  "isword c = (isupper c \<or> islower c \<or> isdigit c \<or> c = CHR ''_'')"

fun word_runs :: "bool \<Rightarrow> string \<Rightarrow> nat" where
  "word_runs inw [] = 0"
| "word_runs inw (c # cs) =
     (if isword c then (if inw then 0 else 1) + word_runs True cs else word_runs False cs)"

definition word_count :: "string option \<Rightarrow> nat" where
  "word_count text = (case text of None \<Rightarrow> 0 | Some s \<Rightarrow> word_runs False s)"

text \<open>
  \<open>hash_body\<close>. The digest function is a parameter \<open>md5\<close>. A missing value is true in
  Python, so \<open>text or ""\<close> keeps it and \<open>re.sub\<close> raises \<open>TypeError\<close>.
\<close>

definition hash_body :: "(string \<Rightarrow> string) \<Rightarrow> string option \<Rightarrow> error + string" where
  "hash_body md5 text =
     (case text of
        None \<Rightarrow> Inl TypeError
      | Some s \<Rightarrow> Inr (md5 (lower (strip (collapse_ws s)))))"

definition clean_body :: "'a article_scheme \<Rightarrow> string option" where
  "clean_body row =
     (let txt = strip_boilerplate_lines (body row)
      in if lower (outlet row) = ''nyp'' then normalize_nyp_bullets txt else txt)"

text \<open>The columns recomputed after cleaning.\<close>

definition recompute :: "article \<Rightarrow> article" where
  "recompute row =
     (let b = clean_body row
      in row\<lparr>body := b, body_words := word_count b,
              body_len := (case b of None \<Rightarrow> 0 | Some s \<Rightarrow> length s)\<rparr>)"

text \<open>\<open>df["body"].apply(hash_body)\<close>: the first error ends the run.\<close>

fun fingerprints :: "(string \<Rightarrow> string) \<Rightarrow> article list \<Rightarrow> error + (string \<times> article) list" where
  "fingerprints md5 [] = Inr []"
| "fingerprints md5 (row # rows) =
     (case hash_body md5 (body row) of
        Inl e \<Rightarrow> Inl e
      | Inr fp \<Rightarrow>
          (case fingerprints md5 rows of
             Inl e \<Rightarrow> Inl e
           | Inr frs \<Rightarrow> Inr ((fp, row) # frs)))"

text \<open>\<open>drop_duplicates(subset=["body_fp"], keep="first")\<close>.\<close>

fun drop_duplicates :: "string list \<Rightarrow> (string \<times> article) list \<Rightarrow> (string \<times> article) list" where
  "drop_duplicates seen [] = []"
| "drop_duplicates seen ((fp, row) # frs) =
     (if fp \<in> set seen then drop_duplicates seen frs
      else (fp, row) # drop_duplicates (fp # seen) frs)"

definition main :: "(string \<Rightarrow> string) \<Rightarrow> article list \<Rightarrow> error + article list" where
  "main md5 df =
     (case fingerprints md5 (map recompute df) of
        Inl e \<Rightarrow> Inl e
      | Inr frs \<Rightarrow>
          Inr (filter (\<lambda>row. MIN_WORDS \<le> body_words row) (map snd (drop_duplicates [] frs))))"


text \<open>
  The specification's words: two body texts are "equal up to letter case and whitespace
  runs" when they have the same words, letter case apart.
\<close>

definition same_text :: "string \<Rightarrow> string \<Rightarrow> bool" where
  "same_text x y = (map lower (split_ws x) = map lower (split_ws y))"

text \<open>
  The character classes of this model (whitespace, word characters, digits, letter case)
  are those of Python on ASCII text. A statement that depends on them is made for rows
  whose outlet and body are ASCII.
\<close>

definition ascii :: "string \<Rightarrow> bool" where
  "ascii s = list_all (\<lambda>c. (of_char c :: nat) < 128) s"

definition ascii_row :: "article \<Rightarrow> bool" where
  "ascii_row r = (ascii (outlet r) \<and> (case body r of None \<Rightarrow> True | Some s \<Rightarrow> ascii s))"

text \<open>Sample bodies of one hundred words.\<close>

definition hundred_words :: string where
  "hundred_words = ''w '' @ concat (replicate 99 ''w '')"

definition hundred_words_variant :: string where
  "hundred_words_variant = ''  W '' @ concat (replicate 99 ''w '')"

definition bulleted_once :: string where
  "bulleted_once = ''ns '' @ hundred_words"

definition bulleted_twice :: string where
  "bulleted_twice = ''ns ns '' @ hundred_words"

section \<open>Honorific segmentation (utterances.py)\<close>

text \<open>
  \<open>parse_honorific_format\<close> reads the file and searches \<open>SPEAKER_PATTERN\<close>,
  \<^verbatim>\<open>(?:^|\n)(Mr\.|Ms\.|Mrs\.|The President|Senator|Governor|Moderator)? ?([A-Z][a-z]+(?: [A-Z][a-z]+)*?)\.\n\<close>
  with \<open>re.MULTILINE\<close>, in the normalised text. The text of the model is the string that
  \<open>f.read()\<close> returns.
\<close>



















text \<open>The speaker of a match: group 1 (or the empty string), a space and group 2, stripped.\<close>

definition speaker_label :: "string option \<times> string \<Rightarrow> string" where
  "speaker_label m = strip ((case fst m of None \<Rightarrow> [] | Some h \<Rightarrow> h) @ '' '' @ snd m)"

text \<open>
  The loop of \<open>parse_honorific_format\<close>: \<open>i\<close> counts the matches, and a match whose
  text is empty after stripping adds no row. The source writes the identifier of a row
  as the string of the debate identifier, an underscore and \<open>i + 1\<close>; the record keeps
  the debate identifier in \<open>debate_id\<close> and the number \<open>i + 1\<close> in \<open>utterance_id\<close>.
\<close>

fun honorific_rows ::
  "string \<Rightarrow> nat \<Rightarrow> ((string option \<times> string) \<times> string) list \<Rightarrow> utterance list" where
  "honorific_rows did i [] = []"
| "honorific_rows did i ((m, raw) # ms) =
     (let utterance = replace_newlines (strip raw)
      in if utterance \<noteq> []
         then \<lparr>utterance_id = i + 1, debate_id = did, speaker = speaker_label m,
                utterance_text = utterance\<rparr> # honorific_rows did (i + 1) ms
         else honorific_rows did (i + 1) ms)"



section \<open>Well-formed speaker transitions\<close>




section \<open>Two layouts of one transcript\<close>

text \<open>
  The specification compares the two all-caps formats on "semantically identical input
  restructured between the two layouts". A transcript is a list of turns, each a label
  and an utterance text. Its inline layout writes a turn as the label, a colon, a space
  and the text; its newline layout writes the label, a colon, a line feed and the text.
  Turns are separated by a line feed. A turn is well formed when the label is two or
  more capitals or spaces and no line of the text after its first starts like a label
  (two or more capitals or spaces followed by a colon).
\<close>

definition turn_text :: "caps_format \<Rightarrow> string \<times> string \<Rightarrow> string" where
  "turn_text fmt t =
     fst t @ '':'' @
     (case fmt of all_caps_inline \<Rightarrow> '' '' | all_caps_newline \<Rightarrow> [CHR 0x0A]) @ snd t"

definition layout :: "caps_format \<Rightarrow> (string \<times> string) list \<Rightarrow> string" where
  "layout fmt turns = join [CHR 0x0A] (map (turn_text fmt) turns)"

fun no_label_line :: "string \<Rightarrow> bool" where
  "no_label_line [] = True"
| "no_label_line (c # cs) = (\<not> lookahead (c # cs) \<and> no_label_line cs)"

definition wf_turn :: "string \<times> string \<Rightarrow> bool" where
  "wf_turn t =
     (2 \<le> length (fst t) \<and> list_all islabelchar (fst t) \<and> no_label_line (snd t))"

text \<open>The text after the first turn: every further turn with the line feed before it.\<close>

definition tail_text :: "caps_format \<Rightarrow> (string \<times> string) list \<Rightarrow> string" where
  "tail_text fmt turns = concat (map (\<lambda>t. CHR 0x0A # turn_text fmt t) turns)"

section \<open>Properties of the title-newline parser\<close>

lemma title_loop_no_speaker:
  "\<forall>l \<in> set lines. \<not> is_speaker_line 30 l \<Longrightarrow>
   title_loop lines us None cu = us"
  by (induction lines arbitrary: cu) (simp_all add: flush_def)

text \<open>
  C1. The claim says that text before the first speaker line never appears in the body
  of the first emitted utterance. The code does otherwise: the lines before the first
  speaker line are collected in \<open>current_utterance\<close>, the first speaker line does not
  reset the list (the reset is inside the conditional that is false while no speaker
  is set), and the first record carries them. On the three lines
  \<open>Intro\<close>, \<open>Mr. Smith.\<close>, \<open>Hello.\<close> the only record has the body \<open>Intro Hello.\<close>.
\<close>

theorem title_newline_preamble_leaks:
  "parse_title_newline_format ''Intro\<newline>Mr. Smith.\<newline>Hello.\<newline>'' ''d'' =
     [\<lparr>utterance_id = 1, debate_id = ''d'', speaker = ''Mr. Smith'', utterance_text = ''Intro Hello.''\<rparr>]"
  by code_simp

text \<open>
  C2. The claim says that no segmenter emits a record with an empty body. The
  regular-expression parser appends a record for every match without looking at the
  text: on \<open>AB:\<close> it emits the speaker \<open>AB\<close> with the empty text. The title-newline
  parser tests that \<open>current_utterance\<close> has a line, not that the joined text is not
  empty: a speaker line followed by a blank line gives a record with the empty text.
\<close>

theorem empty_body_emitted:
  "parse_regex_format ''AB:'' all_caps_inline ''d'' =
     [\<lparr>utterance_id = 1, debate_id = ''d'', speaker = ''AB'', utterance_text = []\<rparr>] \<and>
   parse_title_newline_format ''Mr. Smith.\<newline>\<newline>Moderator.\<newline>Hi'' ''d'' =
     [\<lparr>utterance_id = 1, debate_id = ''d'', speaker = ''Mr. Smith'', utterance_text = []\<rparr>,
      \<lparr>utterance_id = 2, debate_id = ''d'', speaker = ''Moderator'', utterance_text = ''Hi''\<rparr>]"
  by code_simp

section \<open>Properties of the all-caps parser\<close>

lemma label_at_SomeD:
  assumes "label_at s = Some (lab, r)"
  shows "2 \<le> length lab \<and> (\<forall>c \<in> set lab. islabelchar c) \<and> s = lab @ CHR '':'' # r"
proof -
  from assms have lab: "lab = takeWhile islabelchar s" and len: "2 \<le> length lab"
    and dw: "dropWhile islabelchar s = CHR '':'' # r"
    by (auto simp: label_at_def Let_def split: if_splits list.splits)
  have "s = takeWhile islabelchar s @ dropWhile islabelchar s" by simp
  with lab dw have "s = lab @ CHR '':'' # r" by simp
  moreover have "\<forall>c \<in> set lab. islabelchar c"
    unfolding lab by (auto dest: set_takeWhileD)
  ultimately show ?thesis using len by simp
qed

lemma colon_not_label: "\<not> islabelchar CHR '':''"
  by (simp add: islabelchar_def isupper_def)

lemma newline_not_label: "\<not> islabelchar CHR 0x0A"
  by (simp add: islabelchar_def isupper_def)

lemma label_at_intro:
  assumes "2 \<le> length l" "list_all islabelchar l"
  shows "label_at (l @ CHR '':'' # r) = Some (l, r)"
proof -
  from assms(2) have all: "\<And>c. c \<in> set l \<Longrightarrow> islabelchar c"
    by (simp add: list_all_iff)
  have "takeWhile islabelchar (l @ CHR '':'' # r) = l"
    using all by (simp add: takeWhile_append2 colon_not_label)
  moreover have "dropWhile islabelchar (l @ CHR '':'' # r) = CHR '':'' # r"
    using all by (simp add: dropWhile_append2 colon_not_label)
  ultimately show ?thesis
    using assms(1) by (simp add: label_at_def Let_def)
qed

lemma label_at_ctx:
  assumes "y = [] \<or> hd y = CHR 0x0A"
  shows "(label_at (x @ y) \<noteq> None) = (label_at x \<noteq> None)"
proof (cases "\<forall>c \<in> set x. islabelchar c")
  case True
  then have d: "dropWhile islabelchar x = []"
    by simp
  have n1: "label_at x = None"
    by (simp add: label_at_def Let_def d)
  have "dropWhile islabelchar y = y"
    using assms by (cases y) (simp_all add: newline_not_label)
  then have dy: "dropWhile islabelchar (x @ y) = y"
    using True by (simp add: dropWhile_append2)
  have "label_at (x @ y) = None"
    unfolding label_at_def Let_def dy using assms by (cases y) simp_all
  with n1 show ?thesis by simp
next
  case False
  then obtain c where c: "c \<in> set x" "\<not> islabelchar c" by blast
  then have "takeWhile islabelchar (x @ y) = takeWhile islabelchar x"
    by (rule takeWhile_append1)
  moreover have "dropWhile islabelchar (x @ y) = dropWhile islabelchar x @ y"
    using c by (rule dropWhile_append1)
  moreover have "dropWhile islabelchar x \<noteq> []"
    using c by auto
  ultimately show ?thesis
    by (auto simp: label_at_def Let_def split: list.splits)
qed

lemma lookahead_ctx:
  assumes "x \<noteq> []" "y = [] \<or> hd y = CHR 0x0A"
  shows "lookahead (x @ y) = lookahead x"
proof -
  from assms(1) obtain c x' where x: "x = c # x'" by (cases x) auto
  show ?thesis
    using label_at_ctx [OF assms(2), of x']
    by (simp add: x lookahead_def del: not_None_eq)
qed

lemma lazy_body_exact:
  assumes "no_label_line b" "lookahead y" "y = [] \<or> hd y = CHR 0x0A"
  shows "lazy_body (b @ y) = (b, y)"
  using assms(1)
proof (induction b)
  case Nil
  from assms(2) show ?case by (cases y) simp_all
next
  case (Cons c b)
  have "lookahead ((c # b) @ y) = lookahead (c # b)"
    using assms(3) by (intro lookahead_ctx) simp
  with Cons show ?case by simp
qed

lemma match_at_turn:
  assumes wf: "wf_turn t" and la: "lookahead y" and y: "y = [] \<or> hd y = CHR 0x0A"
  shows "match_at fmt (turn_text fmt t @ y) = Some (fst t, snd t, y)"
    and "match_at fmt (CHR 0x0A # turn_text fmt t @ y) = Some (fst t, snd t, y)"
proof -
  obtain l b where t: "t = (l, b)" by (cases t)
  from wf t have l2: "2 \<le> length l" and lall: "list_all islabelchar l" and nb: "no_label_line b"
    by (simp_all add: wf_turn_def)
  define sep where "sep = (case fmt of all_caps_inline \<Rightarrow> '' '' | all_caps_newline \<Rightarrow> [CHR 0x0A])"
  have tt: "turn_text fmt t @ y = l @ CHR '':'' # (sep @ b @ y)"
    by (simp add: turn_text_def t sep_def)
  have la1: "label_at (l @ CHR '':'' # (sep @ b @ y)) = Some (l, sep @ b @ y)"
    using l2 lall by (rule label_at_intro)
  have ac: "after_colon fmt (sep @ b @ y) = Some (b @ y)"
    by (cases fmt) (simp_all add: sep_def isspace_def)
  have lb: "lazy_body (b @ y) = (b, y)"
    using nb la y by (rule lazy_body_exact)
  from l2 obtain c l' where l: "l = c # l'" by (cases l) auto
  with lall have "c \<noteq> CHR 0x0A"
    using newline_not_label by auto
  then show "match_at fmt (turn_text fmt t @ y) = Some (fst t, snd t, y)"
    unfolding tt using la1 ac lb by (simp add: match_at_def l t)
  show "match_at fmt (CHR 0x0A # turn_text fmt t @ y) = Some (fst t, snd t, y)"
    unfolding tt using la1 ac lb by (simp add: match_at_def t)
qed

lemma tail_text_ok:
  assumes "list_all wf_turn turns"
  shows "lookahead (tail_text fmt turns) \<and>
         (tail_text fmt turns = [] \<or> hd (tail_text fmt turns) = CHR 0x0A)"
proof (cases turns)
  case Nil
  then show ?thesis by (simp add: tail_text_def lookahead_def)
next
  case (Cons t ts)
  with assms have "2 \<le> length (fst t)" "list_all islabelchar (fst t)"
    by (simp_all add: wf_turn_def)
  then have "label_at (fst t @ CHR '':'' # r) = Some (fst t, r)" for r
    by (rule label_at_intro)
  then show ?thesis
    by (simp add: Cons tail_text_def lookahead_def turn_text_def)
qed

lemma finditer_tail_text:
  "list_all wf_turn turns \<Longrightarrow> finditer fmt (tail_text fmt turns) = turns"
proof (induction turns)
  case Nil
  then show ?case by (simp add: tail_text_def)
next
  case (Cons t ts)
  then have wf: "wf_turn t" and wfs: "list_all wf_turn ts" by simp_all
  have tt: "tail_text fmt (t # ts) = CHR 0x0A # turn_text fmt t @ tail_text fmt ts"
    by (simp add: tail_text_def)
  have "match_at fmt (CHR 0x0A # turn_text fmt t @ tail_text fmt ts)
          = Some (fst t, snd t, tail_text fmt ts)"
    using wf tail_text_ok [OF wfs, of fmt] by (intro match_at_turn) simp_all
  then show ?case
    using Cons.IH [OF wfs] by (simp add: tt)
qed

lemma layout_Cons:
  "layout fmt (t # ts) = turn_text fmt t @ tail_text fmt ts"
  by (induction ts arbitrary: t) (simp_all add: layout_def tail_text_def)

lemma finditer_layout:
  assumes "list_all wf_turn turns"
  shows "finditer fmt (layout fmt turns) = turns"
proof (cases turns)
  case Nil
  then show ?thesis by (simp add: layout_def)
next
  case (Cons t ts)
  with assms have wf: "wf_turn t" and wfs: "list_all wf_turn ts" by simp_all
  have m: "match_at fmt (turn_text fmt t @ tail_text fmt ts)
          = Some (fst t, snd t, tail_text fmt ts)"
    using wf tail_text_ok [OF wfs, of fmt] by (intro match_at_turn) simp_all
  from wf obtain c r where ne: "turn_text fmt t @ tail_text fmt ts = c # r"
    by (cases "fst t") (auto simp: wf_turn_def turn_text_def)
  show ?thesis
    using m finditer_tail_text [OF wfs, of fmt]
    unfolding Cons layout_Cons ne by simp
qed

lemma regex_rows_pairs:
  "map (\<lambda>u. (speaker u, utterance_text u)) (regex_rows did i ms) =
     map (\<lambda>m. (strip (fst m), replace_newlines (strip (snd m)))) ms"
  by (induction did i ms rule: regex_rows.induct) simp_all


lemma match_at_label:
  "match_at fmt s = Some (lab, b, r) \<Longrightarrow> 2 \<le> length lab \<and> list_all islabelchar lab"
  by (auto simp: match_at_def Let_def list_all_iff split: option.splits prod.splits
      dest: label_at_SomeD)

lemma finditer_labels:
  "m \<in> set (finditer fmt s) \<Longrightarrow> 2 \<le> length (fst m) \<and> list_all islabelchar (fst m)"
proof (induction fmt s rule: finditer.induct)
  case (1 fmt)
  then show ?case by simp
next
  case (2 fmt c cs)
  show ?case
  proof (cases "match_at fmt (c # cs)")
    case None
    with 2 show ?thesis by simp
  next
    case (Some x)
    obtain l1 b1 r1 where x: "x = (l1, b1, r1)" by (cases x)
    from 2 Some x match_at_label [of fmt "c # cs" l1 b1 r1] show ?thesis
      by auto
  qed
qed

lemma label_at_single: "label_at (c # CHR '':'' # r) = None"
  by (simp add: label_at_def Let_def colon_not_label)

lemma match_at_single: "match_at fmt (c # CHR '':'' # r) = None"
  by (auto simp: match_at_def label_at_single label_at_def Let_def colon_not_label)

lemma match_at_nl_single: "match_at fmt (CHR 0x0A # c # CHR '':'' # r) = None"
  by (simp add: match_at_def label_at_single)

lemma lookahead_no_newline:
  "CHR 0x0A \<notin> set x \<Longrightarrow> x \<noteq> [] \<Longrightarrow> \<not> lookahead (x @ y)"
  by (cases x) (auto simp: lookahead_def)

lemma lazy_body_skip_line:
  "CHR 0x0A \<notin> set x \<Longrightarrow> lazy_body (x @ y) = (x @ fst (lazy_body y), snd (lazy_body y))"
proof (induction x)
  case Nil
  then show ?case by simp
next
  case (Cons c x)
  have "\<not> lookahead ((c # x) @ y)"
    using Cons.prems by (intro lookahead_no_newline) auto
  with Cons show ?case by (simp add: split_beta)
qed

lemma no_label_line_append:
  assumes "no_label_line x" "no_label_line y" "y = [] \<or> hd y = CHR 0x0A"
  shows "no_label_line (x @ y)"
  using assms(1)
proof (induction x)
  case Nil
  from assms(2) show ?case by simp
next
  case (Cons c x)
  have "lookahead ((c # x) @ y) = lookahead (c # x)"
    using assms(3) by (intro lookahead_ctx) simp
  with Cons show ?case by simp
qed

lemma no_label_line_skip:
  "CHR 0x0A \<notin> set q \<Longrightarrow> no_label_line (q @ y) = no_label_line y"
proof (induction q)
  case Nil
  then show ?case by simp
next
  case (Cons c q)
  have "\<not> lookahead ((c # q) @ y)"
    using Cons.prems by (intro lookahead_no_newline) auto
  with Cons show ?case by simp
qed

lemma no_label_line_single:
  assumes "CHR 0x0A \<notin> set (c # line)" "no_label_line b2"
  shows "no_label_line (c # CHR '':'' # line @ b2)"
    and "no_label_line (CHR 0x0A # c # CHR '':'' # line @ b2)"
proof -
  from assms(1) have "CHR 0x0A \<notin> set (c # CHR '':'' # line)" by simp
  from no_label_line_skip [OF this, of b2] assms(2)
  show q: "no_label_line (c # CHR '':'' # line @ b2)" by simp
  have "\<not> lookahead (CHR 0x0A # c # CHR '':'' # line @ b2)"
    by (simp add: lookahead_def label_at_single)
  with q show "no_label_line (CHR 0x0A # c # CHR '':'' # line @ b2)"
    by simp
qed

lemma single_char_turn_wf:
  assumes wf: "wf_turn (l, x)"
    and nl: "nl = [CHR 0x0A] \<or> (nl = [] \<and> x = [])"
    and q: "CHR 0x0A \<notin> set (c # line)"
    and b2: "no_label_line b2" "b2 = [] \<or> hd b2 = CHR 0x0A"
  shows "wf_turn (l, x @ nl @ c # CHR '':'' # line @ b2)"
proof -
  from wf have x: "no_label_line x" and l: "2 \<le> length l" "list_all islabelchar l"
    by (simp_all add: wf_turn_def)
  from nl have "no_label_line (x @ nl @ c # CHR '':'' # line @ b2)"
  proof
    assume n: "nl = [CHR 0x0A]"
    have "no_label_line (x @ (CHR 0x0A # c # CHR '':'' # line @ b2))"
      using x no_label_line_single(2) [OF q b2(1)] by (rule no_label_line_append) simp
    then show ?thesis by (simp add: n)
  next
    assume "nl = [] \<and> x = []"
    with no_label_line_single(1) [OF q b2(1)] show ?thesis by simp
  qed
  with l show ?thesis by (simp add: wf_turn_def)
qed

lemma lazy_body_pass:
  assumes "no_label_line x" "y = [] \<or> hd y = CHR 0x0A"
  shows "lazy_body (x @ y) = (x @ fst (lazy_body y), snd (lazy_body y))"
  using assms(1)
proof (induction x)
  case Nil
  then show ?case by simp
next
  case (Cons c x)
  have "lookahead ((c # x) @ y) = lookahead (c # x)"
    using assms(2) by (intro lookahead_ctx) simp
  with Cons show ?case by (simp add: split_beta)
qed

lemma lazy_body_single:
  assumes "CHR 0x0A \<notin> set (c # line)"
  shows "lazy_body (c # CHR '':'' # line @ post) =
           (c # CHR '':'' # line @ fst (lazy_body post), snd (lazy_body post))"
    and "lazy_body (CHR 0x0A # c # CHR '':'' # line @ post) =
           (CHR 0x0A # c # CHR '':'' # line @ fst (lazy_body post), snd (lazy_body post))"
proof -
  from assms have "CHR 0x0A \<notin> set (c # CHR '':'' # line)" by simp
  from lazy_body_skip_line [OF this, of post]
  show a: "lazy_body (c # CHR '':'' # line @ post) =
           (c # CHR '':'' # line @ fst (lazy_body post), snd (lazy_body post))"
    by simp
  have "\<not> lookahead (CHR 0x0A # c # CHR '':'' # line @ post)"
    by (simp add: lookahead_def label_at_single)
  with a show "lazy_body (CHR 0x0A # c # CHR '':'' # line @ post) =
           (CHR 0x0A # c # CHR '':'' # line @ fst (lazy_body post), snd (lazy_body post))"
    by simp
qed

lemma lazy_body_absorbs:
  assumes x: "no_label_line x"
    and nl: "nl = [CHR 0x0A] \<or> (nl = [] \<and> x = [])"
    and q: "CHR 0x0A \<notin> set (c # line)"
  shows "lazy_body (x @ nl @ c # CHR '':'' # line @ post) =
           (x @ nl @ c # CHR '':'' # line @ fst (lazy_body post), snd (lazy_body post))"
  using nl
proof
  assume n: "nl = [CHR 0x0A]"
  define y where "y = CHR 0x0A # c # CHR '':'' # line @ post"
  have hy: "y = [] \<or> hd y = CHR 0x0A"
    by (simp add: y_def)
  have ly: "lazy_body y =
      (CHR 0x0A # c # CHR '':'' # line @ fst (lazy_body post), snd (lazy_body post))"
    unfolding y_def by (rule lazy_body_single(2) [OF q])
  have "lazy_body (x @ y) = (x @ fst (lazy_body y), snd (lazy_body y))"
    using x hy by (rule lazy_body_pass)
  then have "lazy_body (x @ y) =
      (x @ CHR 0x0A # c # CHR '':'' # line @ fst (lazy_body post), snd (lazy_body post))"
    by (simp only: ly fst_conv snd_conv)
  then show ?thesis
    by (simp add: n y_def)
next
  assume "nl = [] \<and> x = []"
  then show ?thesis
    by (simp add: lazy_body_single(1) [OF q] del: lazy_body.simps)
qed

lemma finditer_absorbs:
  assumes l: "2 \<le> length lab" "list_all islabelchar lab"
    and x: "no_label_line x"
    and nl: "nl = [CHR 0x0A] \<or> (nl = [] \<and> x = [])"
    and q: "CHR 0x0A \<notin> set (c # line)"
  shows "finditer fmt (turn_text fmt (lab, x) @ nl @ c # CHR '':'' # line @ post) =
           (lab, x @ nl @ c # CHR '':'' # line @ fst (lazy_body post)) #
           finditer fmt (snd (lazy_body post))"
proof -
  define sep where "sep = (case fmt of all_caps_inline \<Rightarrow> '' '' | all_caps_newline \<Rightarrow> [CHR 0x0A])"
  define body where "body = x @ nl @ c # CHR '':'' # line @ post"
  have tt: "turn_text fmt (lab, x) @ nl @ c # CHR '':'' # line @ post = lab @ CHR '':'' # (sep @ body)"
    by (simp add: turn_text_def sep_def body_def)
  have la: "label_at (lab @ CHR '':'' # (sep @ body)) = Some (lab, sep @ body)"
    using l by (rule label_at_intro)
  have ac: "after_colon fmt (sep @ body) = Some body"
    by (cases fmt) (simp_all add: sep_def isspace_def)
  have lb: "lazy_body body =
      (x @ nl @ c # CHR '':'' # line @ fst (lazy_body post), snd (lazy_body post))"
    unfolding body_def using x nl q by (rule lazy_body_absorbs)
  from l obtain c0 l' where lc: "lab = c0 # l'" by (cases lab) auto
  with l(2) have c0: "c0 \<noteq> CHR 0x0A"
    using newline_not_label by auto
  have m: "match_at fmt (c0 # l' @ CHR '':'' # (sep @ body)) =
      Some (lab, x @ nl @ c # CHR '':'' # line @ fst (lazy_body post), snd (lazy_body post))"
    using la ac lb c0 by (simp add: match_at_def lc)
  show ?thesis
    unfolding tt using m by (simp add: lc)
qed

text \<open>
  C10, as the code has it. Every label the all-caps patterns match is two or more
  characters, each a capital or a space. A line that begins with one character and a
  colon never starts a match, neither at its first character nor at the line feed
  before it. When the text group of an utterance has reached such a line, the parser
  emits that utterance with the whole line in its text and searches on after it: for a
  match that starts with a label and whose text up to the line has no label line,
  \<open>finditer\<close> returns the label with the text through the end of the line (and up to
  where the group ends after it), then the matches of the rest. In a transcript of
  well-formed turns, in either layout, a turn whose text has such a line stays one turn:
  the parser returns every turn with its whole text.
\<close>

theorem single_char_label_line:
  "(\<forall>m \<in> set (finditer fmt text). 2 \<le> length (fst m) \<and> list_all islabelchar (fst m)) \<and>
   match_at fmt (c # CHR '':'' # line @ post) = None \<and>
   match_at fmt (CHR 0x0A # c # CHR '':'' # line @ post) = None \<and>
   (CHR 0x0A \<notin> set (c # line) \<longrightarrow>
      lazy_body (CHR 0x0A # c # CHR '':'' # line @ post) =
        (CHR 0x0A # c # CHR '':'' # line @ fst (lazy_body post), snd (lazy_body post))) \<and>
   (2 \<le> length lab \<and> list_all islabelchar lab \<and> no_label_line x \<and>
    (nl = [CHR 0x0A] \<or> nl = [] \<and> x = []) \<and> CHR 0x0A \<notin> set (c # line) \<longrightarrow>
      finditer fmt (turn_text fmt (lab, x) @ nl @ c # CHR '':'' # line @ post) =
        (lab, x @ nl @ c # CHR '':'' # line @ fst (lazy_body post)) #
        finditer fmt (snd (lazy_body post))) \<and>
   (list_all wf_turn (us @ (lab, x) # vs) \<and>
    (nl = [CHR 0x0A] \<or> nl = [] \<and> x = []) \<and> CHR 0x0A \<notin> set (c # line) \<and>
    no_label_line b2 \<and> (b2 = [] \<or> hd b2 = CHR 0x0A) \<longrightarrow>
      finditer fmt (layout fmt (us @ (lab, x @ nl @ c # CHR '':'' # line @ b2) # vs)) =
        us @ (lab, x @ nl @ c # CHR '':'' # line @ b2) # vs \<and>
      map (\<lambda>u. (speaker u, utterance_text u))
        (parse_regex_format (layout fmt (us @ (lab, x @ nl @ c # CHR '':'' # line @ b2) # vs))
           fmt did) =
      map (\<lambda>t. (strip (fst t), replace_newlines (strip (snd t))))
        (us @ (lab, x @ nl @ c # CHR '':'' # line @ b2) # vs))"
proof (intro conjI ballI impI)
  fix m assume "m \<in> set (finditer fmt text)"
  then show "2 \<le> length (fst m)" "list_all islabelchar (fst m)"
    by (simp_all add: finditer_labels)
next
  show "match_at fmt (c # CHR '':'' # line @ post) = None"
    by (rule match_at_single)
  show "match_at fmt (CHR 0x0A # c # CHR '':'' # line @ post) = None"
    by (rule match_at_nl_single)
next
  assume "CHR 0x0A \<notin> set (c # line)"
  then show "lazy_body (CHR 0x0A # c # CHR '':'' # line @ post) =
        (CHR 0x0A # c # CHR '':'' # line @ fst (lazy_body post), snd (lazy_body post))"
    by (rule lazy_body_single(2))
next
  assume "2 \<le> length lab \<and> list_all islabelchar lab \<and> no_label_line x \<and>
    (nl = [CHR 0x0A] \<or> nl = [] \<and> x = []) \<and> CHR 0x0A \<notin> set (c # line)"
  then show "finditer fmt (turn_text fmt (lab, x) @ nl @ c # CHR '':'' # line @ post) =
        (lab, x @ nl @ c # CHR '':'' # line @ fst (lazy_body post)) #
        finditer fmt (snd (lazy_body post))"
    by (intro finditer_absorbs) blast+
next
  assume h: "list_all wf_turn (us @ (lab, x) # vs) \<and>
    (nl = [CHR 0x0A] \<or> nl = [] \<and> x = []) \<and> CHR 0x0A \<notin> set (c # line) \<and>
    no_label_line b2 \<and> (b2 = [] \<or> hd b2 = CHR 0x0A)"
  then have "wf_turn (lab, x)" by simp
  with h have "wf_turn (lab, x @ nl @ c # CHR '':'' # line @ b2)"
    by (intro single_char_turn_wf) blast+
  with h have wf: "list_all wf_turn (us @ (lab, x @ nl @ c # CHR '':'' # line @ b2) # vs)"
    by simp
  then show f: "finditer fmt (layout fmt (us @ (lab, x @ nl @ c # CHR '':'' # line @ b2) # vs)) =
        us @ (lab, x @ nl @ c # CHR '':'' # line @ b2) # vs"
    by (rule finditer_layout)
  show "map (\<lambda>u. (speaker u, utterance_text u))
        (parse_regex_format (layout fmt (us @ (lab, x @ nl @ c # CHR '':'' # line @ b2) # vs))
           fmt did) =
      map (\<lambda>t. (strip (fst t), replace_newlines (strip (snd t))))
        (us @ (lab, x @ nl @ c # CHR '':'' # line @ b2) # vs)"
    unfolding parse_regex_format_def f by (rule regex_rows_pairs)
qed


theorem single_char_label_line_witness:
  "CHR 0x0A \<notin> set ''Q hi there'' \<and>
   lazy_body ''\<newline>Q: hi there\<newline>CD: y'' = (''\<newline>Q: hi there'', ''\<newline>CD: y'') \<and>
   match_at all_caps_inline ''Q: hi there\<newline>CD: y'' = None \<and>
   match_at all_caps_inline ''\<newline>Q: hi there\<newline>CD: y'' = None \<and>
   finditer all_caps_inline ''AB: x\<newline>Q: hi there\<newline>CD: y'' =
     [(''AB'', ''x\<newline>Q: hi there''), (''CD'', ''y'')] \<and>
   finditer all_caps_newline ''AB:\<newline>Q: hi there\<newline>CD:\<newline>y'' =
     [(''AB'', ''Q: hi there''), (''CD'', ''y'')] \<and>
   map (\<lambda>u. (speaker u, utterance_text u))
     (parse_regex_format ''ZZ: a\<newline>AB: x\<newline>Q: hi there\<newline>more\<newline>CD: y'' all_caps_inline ''d'') =
     [(''ZZ'', ''a''), (''AB'', ''x Q: hi there more''), (''CD'', ''y'')]"
proof -
  have h: "CHR 0x0A \<notin> set (CHR ''Q'' # '' hi there'')"
    by simp
  have p: "lazy_body ''\<newline>CD: y'' = ([], ''\<newline>CD: y'')"
    "lazy_body ''\<newline>CD:\<newline>y'' = ([], ''\<newline>CD:\<newline>y'')"
    by code_simp+
  have r: "finditer all_caps_inline ''\<newline>CD: y'' = [(''CD'', ''y'')]"
    "finditer all_caps_newline ''\<newline>CD:\<newline>y'' = [(''CD'', ''y'')]"
    by code_simp+
  have l: "2 \<le> length ''AB''" "list_all islabelchar ''AB''" "no_label_line ''x''" "no_label_line []"
    by code_simp+
  have wf: "list_all wf_turn ([(''ZZ'', ''a'')] @ (''AB'', ''x'') # [(''CD'', ''y'')])"
    "no_label_line ''\<newline>more''" "hd ''\<newline>more'' = CHR 0x0A"
    by code_simp+
  have lay: "layout all_caps_inline
      ([(''ZZ'', ''a'')] @ (''AB'', ''x'' @ [CHR 0x0A] @ CHR ''Q'' # CHR '':'' # '' hi there'' @ ''\<newline>more'') #
       [(''CD'', ''y'')]) = ''ZZ: a\<newline>AB: x\<newline>Q: hi there\<newline>more\<newline>CD: y''"
    by code_simp
  note a = single_char_label_line
    [of all_caps_inline "''AB: x\<newline>Q: hi there\<newline>CD: y''" "CHR ''Q''" "'' hi there''"
        "''\<newline>CD: y''" "''AB''" "''x''" "[CHR 0x0A]" "[(''ZZ'', ''a'')]" "[(''CD'', ''y'')]"
        "''\<newline>more''" "''d''"]
  note b = single_char_label_line
    [of all_caps_newline "[]" "CHR ''Q''" "'' hi there''"
        "''\<newline>CD:\<newline>y''" "''AB''" "[]" "[]" "[]" "[]" "[]" "''d''"]
  from a h p(1) have c1: "lazy_body ''\<newline>Q: hi there\<newline>CD: y'' = (''\<newline>Q: hi there'', ''\<newline>CD: y'')"
    and c2: "match_at all_caps_inline ''Q: hi there\<newline>CD: y'' = None"
    and c3: "match_at all_caps_inline ''\<newline>Q: hi there\<newline>CD: y'' = None"
    by simp_all
  have e1: "turn_text all_caps_inline (''AB'', ''x'') @ [CHR 0x0A] @ CHR ''Q'' # CHR '':'' # '' hi there'' @ ''\<newline>CD: y'' =
      ''AB: x\<newline>Q: hi there\<newline>CD: y''"
    by code_simp
  have e2: "(''AB'', ''x'' @ [CHR 0x0A] @ CHR ''Q'' # CHR '':'' # '' hi there'' @ fst (lazy_body ''\<newline>CD: y'')) #
      finditer all_caps_inline (snd (lazy_body ''\<newline>CD: y'')) =
      [(''AB'', ''x\<newline>Q: hi there''), (''CD'', ''y'')]"
    by (simp add: p r del: finditer.simps lazy_body.simps)
  from a h l have "finditer all_caps_inline
        (turn_text all_caps_inline (''AB'', ''x'') @ [CHR 0x0A] @ CHR ''Q'' # CHR '':'' # '' hi there'' @ ''\<newline>CD: y'') =
      (''AB'', ''x'' @ [CHR 0x0A] @ CHR ''Q'' # CHR '':'' # '' hi there'' @ fst (lazy_body ''\<newline>CD: y'')) #
      finditer all_caps_inline (snd (lazy_body ''\<newline>CD: y''))"
    by blast
  then have c4: "finditer all_caps_inline ''AB: x\<newline>Q: hi there\<newline>CD: y'' =
     [(''AB'', ''x\<newline>Q: hi there''), (''CD'', ''y'')]"
    unfolding e1 e2 .
  have e3: "turn_text all_caps_newline (''AB'', []) @ [] @ CHR ''Q'' # CHR '':'' # '' hi there'' @ ''\<newline>CD:\<newline>y'' =
      ''AB:\<newline>Q: hi there\<newline>CD:\<newline>y''"
    by code_simp
  have e4: "(''AB'', [] @ [] @ CHR ''Q'' # CHR '':'' # '' hi there'' @ fst (lazy_body ''\<newline>CD:\<newline>y'')) #
      finditer all_caps_newline (snd (lazy_body ''\<newline>CD:\<newline>y'')) =
      [(''AB'', ''Q: hi there''), (''CD'', ''y'')]"
    by (simp add: p r del: finditer.simps lazy_body.simps)
  from b h l have "finditer all_caps_newline
        (turn_text all_caps_newline (''AB'', []) @ [] @ CHR ''Q'' # CHR '':'' # '' hi there'' @ ''\<newline>CD:\<newline>y'') =
      (''AB'', [] @ [] @ CHR ''Q'' # CHR '':'' # '' hi there'' @ fst (lazy_body ''\<newline>CD:\<newline>y'')) #
      finditer all_caps_newline (snd (lazy_body ''\<newline>CD:\<newline>y''))"
    by blast
  then have c5: "finditer all_caps_newline ''AB:\<newline>Q: hi there\<newline>CD:\<newline>y'' =
     [(''AB'', ''Q: hi there''), (''CD'', ''y'')]"
    unfolding e3 e4 .
  from a h wf have "map (\<lambda>u. (speaker u, utterance_text u))
        (parse_regex_format (layout all_caps_inline
           ([(''ZZ'', ''a'')] @ (''AB'', ''x'' @ [CHR 0x0A] @ CHR ''Q'' # CHR '':'' # '' hi there'' @ ''\<newline>more'') #
            [(''CD'', ''y'')])) all_caps_inline ''d'') =
      map (\<lambda>t. (strip (fst t), replace_newlines (strip (snd t))))
        ([(''ZZ'', ''a'')] @ (''AB'', ''x'' @ [CHR 0x0A] @ CHR ''Q'' # CHR '':'' # '' hi there'' @ ''\<newline>more'') #
            [(''CD'', ''y'')])"
    by blast
  moreover have "map (\<lambda>t. (strip (fst t), replace_newlines (strip (snd t))))
        ([(''ZZ'', ''a'')] @ (''AB'', ''x'' @ [CHR 0x0A] @ CHR ''Q'' # CHR '':'' # '' hi there'' @ ''\<newline>more'') #
            [(''CD'', ''y'')]) = [(''ZZ'', ''a''), (''AB'', ''x Q: hi there more''), (''CD'', ''y'')]"
    by code_simp
  ultimately have c6: "map (\<lambda>u. (speaker u, utterance_text u))
     (parse_regex_format ''ZZ: a\<newline>AB: x\<newline>Q: hi there\<newline>more\<newline>CD: y'' all_caps_inline ''d'') =
     [(''ZZ'', ''a''), (''AB'', ''x Q: hi there more''), (''CD'', ''y'')]"
    by (simp only: lay)
  have h': "CHR 0x0A \<notin> set ''Q hi there''"
    by simp
  from h' c1 c2 c3 c4 c5 c6 show ?thesis
    by (intro conjI)
qed

text \<open>
  The claim as written also says that the text of such a line is discarded when no
  utterance has started. A label may start anywhere in a line, so a later label in the
  same line starts an utterance and the rest of the line is its text.
\<close>

theorem single_char_label_line_counterexample:
  "parse_regex_format ''Q: SO WHAT: yes'' all_caps_inline ''d'' =
     [\<lparr>utterance_id = 1, debate_id = ''d'', speaker = ''SO WHAT'', utterance_text = ''yes''\<rparr>]"
  by code_simp

text \<open>
  C6. For every transcript of well-formed turns, the inline parser on the inline layout
  and the newline parser on the newline layout emit the same sequence of
  (speaker, text) pairs: the stripped label and the stripped text of every turn, with
  line feeds replaced by spaces.
\<close>

theorem inline_newline_equivalent:
  assumes "list_all wf_turn turns"
  shows "map (\<lambda>u. (speaker u, utterance_text u))
           (parse_regex_format (layout all_caps_inline turns) all_caps_inline did) =
         map (\<lambda>u. (speaker u, utterance_text u))
           (parse_regex_format (layout all_caps_newline turns) all_caps_newline did) \<and>
         map (\<lambda>u. (speaker u, utterance_text u))
           (parse_regex_format (layout all_caps_inline turns) all_caps_inline did) =
         map (\<lambda>t. (strip (fst t), replace_newlines (strip (snd t)))) turns"
  using assms by (simp add: parse_regex_format_def regex_rows_pairs finditer_layout)

theorem inline_newline_equivalent_witness:
  "list_all wf_turn [(''JOHN SMITH'', ''Hello there.''), (''JANE DOE'', ''Hi back.\<newline>'')] \<and>
   layout all_caps_inline [(''JOHN SMITH'', ''Hello there.''), (''JANE DOE'', ''Hi back.\<newline>'')] =
     ''JOHN SMITH: Hello there.\<newline>JANE DOE: Hi back.\<newline>'' \<and>
   layout all_caps_newline [(''JOHN SMITH'', ''Hello there.''), (''JANE DOE'', ''Hi back.\<newline>'')] =
     ''JOHN SMITH:\<newline>Hello there.\<newline>JANE DOE:\<newline>Hi back.\<newline>'' \<and>
   map (\<lambda>u. (speaker u, utterance_text u))
     (parse_regex_format ''JOHN SMITH: Hello there.\<newline>JANE DOE: Hi back.\<newline>''
        all_caps_inline ''d'') =
   map (\<lambda>u. (speaker u, utterance_text u))
     (parse_regex_format ''JOHN SMITH:\<newline>Hello there.\<newline>JANE DOE:\<newline>Hi back.\<newline>''
        all_caps_newline ''d'')"
proof -
  let ?T = "[(''JOHN SMITH'', ''Hello there.''), (''JANE DOE'', ''Hi back.\<newline>'')]"
  have h: "list_all wf_turn ?T"
    by code_simp
  have li: "layout all_caps_inline ?T = ''JOHN SMITH: Hello there.\<newline>JANE DOE: Hi back.\<newline>''"
    by code_simp
  have ln: "layout all_caps_newline ?T =
      ''JOHN SMITH:\<newline>Hello there.\<newline>JANE DOE:\<newline>Hi back.\<newline>''"
    by code_simp
  from inline_newline_equivalent [OF h, of "''d''"]
  have "map (\<lambda>u. (speaker u, utterance_text u))
           (parse_regex_format (layout all_caps_inline ?T) all_caps_inline ''d'') =
         map (\<lambda>u. (speaker u, utterance_text u))
           (parse_regex_format (layout all_caps_newline ?T) all_caps_newline ''d'')"
    by (rule conjunct1)
  then show ?thesis
    unfolding li ln using h li ln by blast
qed

section \<open>Properties of the role resolver\<close>

lemma roster_loop_Cons:
  "roster_loop toks (e # items) =
     (if overlaps toks (fst e) then Some (snd e) else roster_loop toks items)"
  by (cases e) (simp add: overlaps_def)

lemma roster_loop_first:
  assumes "\<forall>e \<in> set pre. \<not> overlaps toks (fst e)" "overlaps toks n"
  shows "roster_loop toks (pre @ (n, r) # post) = Some r"
  using assms by (induction pre) (simp_all add: roster_loop_Cons del: roster_loop.simps)

lemma roster_loop_none:
  "(roster_loop toks items = None) = (\<forall>e \<in> set items. \<not> overlaps toks (fst e))"
  by (induction items) (simp_all add: roster_loop_Cons del: roster_loop.simps(2))

text \<open>
  C4. The rules of \<open>match_role\<close> apply in a fixed order. The first entry of the roster,
  in its order, whose cleaned name shares a token with the cleaned label gives the
  role, whatever follows it in the roster. When no entry shares a token, the generic
  moderator words are tried, then the "president" rule, then the default Moderator.
\<close>

theorem match_role_rule_order:
  "((\<forall>e \<in> set pre. \<not> overlaps (split_ws (clean_for_matching name)) (fst e)) \<and>
     overlaps (split_ws (clean_for_matching name)) n \<longrightarrow>
     match_role name (pre @ (n, r) # post) did st = Inr (r, st)) \<and>
   ((\<forall>e \<in> set canonical_map. \<not> overlaps (split_ws (clean_for_matching name)) (fst e)) \<longrightarrow>
     match_role name canonical_map did st =
       (if generic_moderator (clean_for_matching name) then Inr (Moderator, st)
        else if contains ''president'' (clean_for_matching name) then resolve_president did st
        else Inr (Moderator, st)))"
proof (intro conjI impI)
  assume "(\<forall>e \<in> set pre. \<not> overlaps (split_ws (clean_for_matching name)) (fst e)) \<and>
     overlaps (split_ws (clean_for_matching name)) n"
  then have "roster_loop (split_ws (clean_for_matching name)) (pre @ (n, r) # post) = Some r"
    by (intro roster_loop_first) simp_all
  then show "match_role name (pre @ (n, r) # post) did st = Inr (r, st)"
    by (simp add: match_role_def Let_def)
next
  assume "\<forall>e \<in> set canonical_map. \<not> overlaps (split_ws (clean_for_matching name)) (fst e)"
  then have "roster_loop (split_ws (clean_for_matching name)) canonical_map = None"
    by (simp add: roster_loop_none)
  then show "match_role name canonical_map did st =
       (if generic_moderator (clean_for_matching name) then Inr (Moderator, st)
        else if contains ''president'' (clean_for_matching name) then resolve_president did st
        else Inr (Moderator, st))"
    by (simp add: match_role_def Let_def)
qed

theorem match_role_rule_order_witness:
  "match_role (normalize_speaker_name (Some ''SMITH''))
     [(''John Smith'', Candidate_R), (''Jane Doe'', Candidate_D)] ''d''
     \<lparr>ambiguous_resolution_cache = Map.empty, stdin = []\<rparr> =
   Inr (Candidate_R, \<lparr>ambiguous_resolution_cache = Map.empty, stdin = []\<rparr>) \<and>
   match_role ''Audience Member''
     [(''John Smith'', Candidate_R), (''Jane Doe'', Candidate_D)] ''d''
     \<lparr>ambiguous_resolution_cache = Map.empty, stdin = []\<rparr> =
   Inr (Moderator, \<lparr>ambiguous_resolution_cache = Map.empty, stdin = []\<rparr>)"
proof -
  let ?st = "\<lparr>ambiguous_resolution_cache = Map.empty, stdin = []\<rparr>"
  have o: "overlaps (split_ws (clean_for_matching (normalize_speaker_name (Some ''SMITH''))))
             ''John Smith''"
    by code_simp
  have n: "\<forall>e \<in> set [(''John Smith'', Candidate_R), (''Jane Doe'', Candidate_D)].
             \<not> overlaps (split_ws (clean_for_matching ''Audience Member'')) (fst e)"
    by code_simp
  have g: "generic_moderator (clean_for_matching ''Audience Member'')"
    by code_simp
  from match_role_rule_order [of "[]" "normalize_speaker_name (Some ''SMITH'')" "''John Smith''" Candidate_R
        "[(''Jane Doe'', Candidate_D)]" "''d''" ?st
        "[(''John Smith'', Candidate_R), (''Jane Doe'', Candidate_D)]"] o
  have a: "match_role (normalize_speaker_name (Some ''SMITH''))
     [(''John Smith'', Candidate_R), (''Jane Doe'', Candidate_D)] ''d'' ?st = Inr (Candidate_R, ?st)"
    by simp
  from match_role_rule_order [of "[]" "''Audience Member''" "''John Smith''" Candidate_R
        "[(''Jane Doe'', Candidate_D)]" "''d''" ?st
        "[(''John Smith'', Candidate_R), (''Jane Doe'', Candidate_D)]"] n g
  have b: "match_role ''Audience Member''
     [(''John Smith'', Candidate_R), (''Jane Doe'', Candidate_D)] ''d'' ?st = Inr (Moderator, ?st)"
    by simp
  from a b show ?thesis by (rule conjI)
qed


lemma resolve_president_cached:
  "ambiguous_resolution_cache st did = Some r \<Longrightarrow> resolve_president did st = Inr (r, st)"
  by (simp add: resolve_president_def)

lemma ask_length: "ask ls = Inr (r, ls') \<Longrightarrow> length ls' < length ls"
  by (induction ls) (auto split: option.splits)

lemma resolve_president_write:
  assumes "resolve_president did st = Inr (r, st')"
  shows "st' = st \<and> ambiguous_resolution_cache st did = Some r \<or>
         ambiguous_resolution_cache st did = None \<and>
         (\<exists>ls. ask (stdin st) = Inr (r, ls) \<and>
           st' = st\<lparr>ambiguous_resolution_cache := (ambiguous_resolution_cache st)(did \<mapsto> r),
                     stdin := ls\<rparr>)"
proof (cases "ambiguous_resolution_cache st did")
  case None
  with assms obtain ls where a: "ask (stdin st) = Inr (r, ls)"
    and st': "st' = st\<lparr>ambiguous_resolution_cache := (ambiguous_resolution_cache st)(did \<mapsto> r),
                       stdin := ls\<rparr>"
    by (auto simp: resolve_president_def split: sum.splits)
  with None show ?thesis by blast
next
  case (Some r0)
  with assms show ?thesis by (simp add: resolve_president_def)
qed

lemma match_role_write:
  assumes "match_role name canonical_map did st = Inr (r, st')"
  shows "st' = st \<or>
         ambiguous_resolution_cache st did = None \<and>
         (\<exists>ls. ask (stdin st) = Inr (r, ls) \<and>
           st' = st\<lparr>ambiguous_resolution_cache := (ambiguous_resolution_cache st)(did \<mapsto> r),
                     stdin := ls\<rparr>)"
proof (cases "match_role name canonical_map did st = resolve_president did st")
  case True
  with assms have "resolve_president did st = Inr (r, st')" by simp
  from resolve_president_write [OF this] show ?thesis by blast
next
  case False
  then have "match_role name canonical_map did st = Inr (r, st')
      \<Longrightarrow> st' = st"
    by (auto simp: match_role_def Let_def split: option.splits if_splits)
  with assms show ?thesis by simp
qed

lemma match_role_cached:
  assumes "ambiguous_resolution_cache st did = Some r0"
  shows "\<exists>r. match_role name canonical_map did st = Inr (r, st)"
  using assms
  by (auto simp: match_role_def Let_def resolve_president_cached split: option.splits)

lemma resolve_speakers_cached:
  assumes "ambiguous_resolution_cache st did = Some r0"
  shows "\<exists>rs. resolve_speakers sps canonical_map did st = Inr (rs, st)"
proof (induction sps)
  case Nil
  then show ?case by simp
next
  case (Cons sp sps)
  from match_role_cached [OF assms]
  obtain r where "match_role (normalize_speaker_name sp) canonical_map did st = Inr (r, st)"
    by blast
  with Cons show ?case by auto
qed

lemma resolve_speakers_write:
  assumes "resolve_speakers sps canonical_map did st = Inr (rs, st')"
  shows "st' = st \<or>
         ambiguous_resolution_cache st did = None \<and>
         (\<exists>r ls. ask (stdin st) = Inr (r, ls) \<and>
           st' = st\<lparr>ambiguous_resolution_cache := (ambiguous_resolution_cache st)(did \<mapsto> r),
                     stdin := ls\<rparr>)"
  using assms
proof (induction sps arbitrary: st rs)
  case Nil
  then show ?case by simp
next
  case (Cons sp sps)
  from Cons.prems obtain r st1 rs1 where
    m: "match_role (normalize_speaker_name sp) canonical_map did st = Inr (r, st1)" and
    rest: "resolve_speakers sps canonical_map did st1 = Inr (rs1, st')"
    by (auto split: sum.splits)
  from match_role_write [OF m] show ?case
  proof
    assume "st1 = st"
    with Cons.IH rest show ?thesis by blast
  next
    assume w: "ambiguous_resolution_cache st did = None \<and>
         (\<exists>ls. ask (stdin st) = Inr (r, ls) \<and>
           st1 = st\<lparr>ambiguous_resolution_cache := (ambiguous_resolution_cache st)(did \<mapsto> r),
                     stdin := ls\<rparr>)"
    then have "ambiguous_resolution_cache st1 did = Some r" by auto
    from resolve_speakers_cached [OF this, of sps canonical_map] rest
    have "st' = st1" by auto
    with w show ?thesis by blast
  qed
qed

text \<open>
  C5. Once the cache holds a role for a debate, the "president" rule returns it, and
  every call of \<open>match_role\<close> and the whole loop over the speakers of that debate
  leave the cache and the input untouched. The loop over the speakers of a debate
  changes the state at most once: then the debate was not in the cache, one run of the
  question loop consumed input, and its answer is the one entry added to the cache.
\<close>

theorem ambiguity_asked_once:
  "(ambiguous_resolution_cache st did = Some r0 \<longrightarrow>
      resolve_president did st = Inr (r0, st) \<and>
      (\<exists>r. match_role name canonical_map did st = Inr (r, st)) \<and>
      (\<exists>rs. resolve_speakers sps canonical_map did st = Inr (rs, st))) \<and>
   (resolve_speakers sps canonical_map did st = Inr (rs, st') \<longrightarrow>
      st' = st \<or>
      ambiguous_resolution_cache st did = None \<and>
      (\<exists>r ls. ask (stdin st) = Inr (r, ls) \<and>
         st' = st\<lparr>ambiguous_resolution_cache := (ambiguous_resolution_cache st)(did \<mapsto> r),
                   stdin := ls\<rparr>))"
  using resolve_president_cached [of st did r0]
    match_role_cached [of st did r0 name canonical_map]
    resolve_speakers_cached [of st did r0 sps canonical_map]
    resolve_speakers_write [of sps canonical_map did st rs st']
  by blast

theorem ambiguity_asked_once_witness:
  "resolve_speakers [Some ''THE PRESIDENT'', Some ''SMITH'', Some ''President.'']
       [(''John Smith'', Candidate_R), (''Jane Doe'', Candidate_D)] ''d''
       \<lparr>ambiguous_resolution_cache = Map.empty, stdin = [''x'', '' d '', ''M'']\<rparr> =
     Inr ([Candidate_D, Candidate_R, Candidate_D],
          \<lparr>ambiguous_resolution_cache = [''d'' \<mapsto> Candidate_D], stdin = [''M'']\<rparr>) \<and>
   (\<exists>r ls. ask [''x'', '' d '', ''M''] = Inr (r, ls) \<and>
      \<lparr>ambiguous_resolution_cache = [''d'' \<mapsto> Candidate_D], stdin = [''M'']\<rparr> =
      \<lparr>ambiguous_resolution_cache = [''d'' \<mapsto> r], stdin = ls\<rparr>) \<and>
   (\<exists>rs. resolve_speakers [Some ''THE PRESIDENT'', Some ''SMITH'', Some ''President.'']
           [(''John Smith'', Candidate_R), (''Jane Doe'', Candidate_D)] ''d''
           \<lparr>ambiguous_resolution_cache = [''d'' \<mapsto> Candidate_D], stdin = [''M'']\<rparr> =
         Inr (rs, \<lparr>ambiguous_resolution_cache = [''d'' \<mapsto> Candidate_D], stdin = [''M'']\<rparr>))"
proof -
  let ?cm = "[(''John Smith'', Candidate_R), (''Jane Doe'', Candidate_D)]"
  let ?st0 = "\<lparr>ambiguous_resolution_cache = Map.empty, stdin = [''x'', '' d '', ''M'']\<rparr>"
  let ?st1 = "\<lparr>ambiguous_resolution_cache = [''d'' \<mapsto> Candidate_D], stdin = [''M'']\<rparr>"
  have n1: "clean_for_matching (normalize_speaker_name (Some ''THE PRESIDENT'')) = ''the president''"
    and n2: "clean_for_matching (normalize_speaker_name (Some ''SMITH'')) = ''smith''"
    and n3: "clean_for_matching (normalize_speaker_name (Some ''President.'')) = ''president''"
    by code_simp+
  have r1: "roster_loop (split_ws ''the president'') ?cm = None"
    and r2: "roster_loop (split_ws ''smith'') ?cm = Some Candidate_R"
    and r3: "roster_loop (split_ws ''president'') ?cm = None"
    by code_simp+
  have g: "\<not> generic_moderator ''the president''" "\<not> generic_moderator ''president''"
    "contains ''president'' ''the president''" "contains ''president'' ''president''"
    by code_simp+
  have a: "ask [''x'', '' d '', ''M''] = Inr (Candidate_D, [''M''])"
    by code_simp
  have m1: "match_role (normalize_speaker_name (Some ''THE PRESIDENT'')) ?cm ''d'' ?st0 =
      Inr (Candidate_D, ?st1)"
    by (simp add: match_role_def Let_def n1 r1 g resolve_president_def a del: roster_loop.simps ask.simps)
  have m2: "match_role (normalize_speaker_name (Some ''SMITH'')) ?cm ''d'' ?st1 =
      Inr (Candidate_R, ?st1)"
    by (simp add: match_role_def Let_def n2 r2 del: roster_loop.simps)
  have m3: "match_role (normalize_speaker_name (Some ''President.'')) ?cm ''d'' ?st1 =
      Inr (Candidate_D, ?st1)"
    by (simp add: match_role_def Let_def n3 r3 g resolve_president_def del: roster_loop.simps)
  have e: "resolve_speakers [Some ''THE PRESIDENT'', Some ''SMITH'', Some ''President.''] ?cm ''d'' ?st0 =
     Inr ([Candidate_D, Candidate_R, Candidate_D], ?st1)"
    by (simp add: m1 m2 m3)
  have ne: "?st1 \<noteq> ?st0"
    by simp
  from ambiguity_asked_once
    [of ?st0 "''d''" Candidate_D "''x''" ?cm
        "[Some ''THE PRESIDENT'', Some ''SMITH'', Some ''President.'']"
        "[Candidate_D, Candidate_R, Candidate_D]" ?st1] e ne
  have "\<exists>r ls. ask (stdin ?st0) = Inr (r, ls) \<and>
         ?st1 = ?st0\<lparr>ambiguous_resolution_cache := (ambiguous_resolution_cache ?st0)(''d'' \<mapsto> r),
                   stdin := ls\<rparr>"
    by blast
  then have "\<exists>r ls. ask [''x'', '' d '', ''M''] = Inr (r, ls) \<and>
      ?st1 = \<lparr>ambiguous_resolution_cache = [''d'' \<mapsto> r], stdin = ls\<rparr>"
    by simp
  moreover have h: "ambiguous_resolution_cache ?st1 ''d'' = Some Candidate_D"
    by simp
  from ambiguity_asked_once
    [of ?st1 "''d''" Candidate_D "''x''" ?cm
        "[Some ''THE PRESIDENT'', Some ''SMITH'', Some ''President.'']" "[]" ?st1] h
  have "\<exists>rs. resolve_speakers [Some ''THE PRESIDENT'', Some ''SMITH'', Some ''President.''] ?cm ''d'' ?st1 =
         Inr (rs, ?st1)"
    by blast
  ultimately show ?thesis using e by blast
qed

section \<open>Properties of the article filter\<close>

lemma lines_nl_ne: "lines_nl s \<noteq> []"
  by (induction s) (auto split: list.splits)

lemma lines_nl_Cons:
  "c \<noteq> CHR 0x0A \<Longrightarrow> lines_nl (c # cs) = (c # hd (lines_nl cs)) # tl (lines_nl cs)"
  using lines_nl_ne [of cs] by (cases "lines_nl cs") simp_all

lemma lines_nl_newline: "lines_nl (CHR 0x0A # cs) = [] # lines_nl cs"
  by simp

declare lines_nl.simps(2) [simp del]

lemma hd_lines_nl:
  "CHR 0x0A \<notin> set x \<Longrightarrow> r = [] \<or> hd r = CHR 0x0A \<Longrightarrow> hd (lines_nl (x @ r)) = x"
proof (induction x)
  case Nil
  then show ?case by (cases r) (auto simp: lines_nl_newline)
next
  case (Cons c x)
  then have "c \<noteq> CHR 0x0A" by auto
  with Cons show ?case by (simp add: lines_nl_Cons)
qed

lemma strip_ws_Cons: "isspace c \<Longrightarrow> strip (c # l) = strip l"
  by (simp add: strip_def lstrip_def)

lemma rstrip_tag:
  assumes "tag \<noteq> []" "\<forall>c \<in> set tag. \<not> isspace c" "\<forall>c \<in> set w. isspace c"
  shows "rstrip (tag @ w) = tag"
proof -
  have "dropWhile isspace (rev w @ rev tag) = dropWhile isspace (rev tag)"
    using assms(3) by (intro dropWhile_append2) auto
  also have "\<dots> = rev tag"
    using assms(1,2) by (cases "rev tag") auto
  finally show ?thesis by (simp add: rstrip_def)
qed

lemma strip_tag:
  assumes "tag \<noteq> []" "\<forall>c \<in> set tag. \<not> isspace c" "\<forall>c \<in> set w. isspace c"
  shows "strip (tag @ w) = tag"
proof -
  have "lstrip (tag @ w) = tag @ w"
    using assms(1,2) by (cases tag) (auto simp: lstrip_def)
  then show ?thesis using rstrip_tag [OF assms] by (simp add: strip_def)
qed

lemma line_end_afterD:
  assumes "line_end_after r"
  shows "\<exists>w r'. r = w @ r' \<and> (\<forall>c \<in> set w. isspace c) \<and> CHR 0x0A \<notin> set w \<and>
           (r' = [] \<or> hd r' = CHR 0x0A)"
proof -
  let ?P = "\<lambda>c. isspace c \<and> c \<noteq> CHR 0x0A"
  have "r = takeWhile ?P r @ dropWhile ?P r" by simp
  moreover have "\<forall>c \<in> set (takeWhile ?P r). ?P c"
    by (auto dest: set_takeWhileD)
  moreover have "dropWhile ?P r = [] \<or> hd (dropWhile ?P r) = CHR 0x0A"
    using assms by (auto simp: line_end_after_def split: list.splits)
  ultimately show ?thesis by blast
qed

lemma tag_here_line:
  assumes tag: "tag \<noteq> []" "\<forall>c \<in> set tag. \<not> isspace c"
  shows "tag_here tag s \<Longrightarrow> \<exists>l \<in> set (lines_nl s). strip l = tag"
proof (induction s)
  case Nil
  with tag show ?case by (cases tag) (simp_all add: tag_here_def)
next
  case (Cons c cs)
  show ?case
  proof (cases "isspace c")
    case True
    with Cons.prems have "tag_here tag cs" by (simp add: tag_here_def)
    with Cons.IH obtain l where l: "l \<in> set (lines_nl cs)" "strip l = tag" by blast
    show ?thesis
    proof (cases "c = CHR 0x0A")
      case True
      with l show ?thesis by (auto simp: lines_nl_newline)
    next
      case False
      show ?thesis
      proof (cases "l = hd (lines_nl cs)")
        case True
        with l \<open>isspace c\<close> have "strip (c # hd (lines_nl cs)) = tag"
          by (simp add: strip_ws_Cons)
        with False show ?thesis by (simp add: lines_nl_Cons)
      next
        case False
        with l lines_nl_ne [of cs] have "l \<in> set (tl (lines_nl cs))"
          by (cases "lines_nl cs") auto
        with \<open>c \<noteq> CHR 0x0A\<close> l show ?thesis by (auto simp: lines_nl_Cons)
      qed
    qed
  next
    case False
    with Cons.prems obtain r where r: "strip_prefix tag (c # cs) = Some r" "line_end_after r"
      by (auto simp: tag_here_def split: option.splits)
    from line_end_afterD [OF r(2)] obtain w r' where
      w: "r = w @ r'" "\<forall>c \<in> set w. isspace c" "CHR 0x0A \<notin> set w" "r' = [] \<or> hd r' = CHR 0x0A"
      by blast
    have nl: "\<not> isspace c \<Longrightarrow> c \<noteq> CHR 0x0A" for c
      by (auto simp: isspace_def)
    from tag(2) nl have "CHR 0x0A \<notin> set tag" by blast
    with w(3) have "CHR 0x0A \<notin> set (tag @ w)" by simp
    from hd_lines_nl [OF this w(4)] have "hd (lines_nl ((tag @ w) @ r')) = tag @ w" .
    moreover from strip_prefixD [OF r(1)] w(1) have "c # cs = (tag @ w) @ r'" by simp
    ultimately have "hd (lines_nl (c # cs)) = tag @ w" by simp
    moreover have "strip (tag @ w) = tag"
      using tag w(2) by (rule strip_tag)
    ultimately show ?thesis
      using lines_nl_ne [of "c # cs"] by (metis hd_in_set)
  qed
qed

lemma search_tag_iff:
  "search_tag tag bol s =
     ((bol \<and> tag_here tag s) \<or> (\<exists>pre post. s = pre @ CHR 0x0A # post \<and> tag_here tag post))"
proof (induction s arbitrary: bol)
  case Nil
  then show ?case by simp
next
  case (Cons c cs)
  have "(\<exists>pre post. c # cs = pre @ CHR 0x0A # post \<and> tag_here tag post) =
        ((c = CHR 0x0A \<and> tag_here tag cs) \<or>
         (\<exists>pre post. cs = pre @ CHR 0x0A # post \<and> tag_here tag post))"
    by (auto simp: Cons_eq_append_conv)
  with Cons [of "c = CHR 0x0A"] show ?case by auto
qed

lemma lines_nl_append:
  "lines_nl (pre @ CHR 0x0A # post) = lines_nl pre @ lines_nl post"
proof (induction pre)
  case Nil
  then show ?case by (simp add: lines_nl_newline)
next
  case (Cons c pre)
  show ?case
  proof (cases "c = CHR 0x0A")
    case True
    with Cons show ?thesis by (simp add: lines_nl_newline)
  next
    case False
    with Cons lines_nl_ne [of pre] show ?thesis
      by (cases "lines_nl pre") (simp_all add: lines_nl_Cons)
  qed
qed

lemma first_line:
  "\<exists>r. s = hd (lines_nl s) @ r \<and> (r = [] \<or> hd r = CHR 0x0A) \<and>
       CHR 0x0A \<notin> set (hd (lines_nl s))"
proof (induction s)
  case Nil
  then show ?case by simp
next
  case (Cons c cs)
  then obtain r where r: "cs = hd (lines_nl cs) @ r" "r = [] \<or> hd r = CHR 0x0A"
    "CHR 0x0A \<notin> set (hd (lines_nl cs))"
    by blast
  show ?case
  proof (cases "c = CHR 0x0A")
    case True
    then have "c # cs = hd (lines_nl (c # cs)) @ (c # cs)" "hd (c # cs) = CHR 0x0A"
      "CHR 0x0A \<notin> set (hd (lines_nl (c # cs)))"
      by (simp_all add: lines_nl_newline)
    then show ?thesis by blast
  next
    case False
    then have h: "hd (lines_nl (c # cs)) = c # hd (lines_nl cs)"
      by (simp add: lines_nl_Cons)
    from r(1) have "c # cs = (c # hd (lines_nl cs)) @ r" by simp
    with r(2,3) False show ?thesis unfolding h by auto
  qed
qed

lemma later_line:
  "l \<in> set (tl (lines_nl s)) \<Longrightarrow>
     \<exists>pre r. s = pre @ CHR 0x0A # l @ r \<and> (r = [] \<or> hd r = CHR 0x0A) \<and> CHR 0x0A \<notin> set l"
proof (induction s)
  case Nil
  then show ?case by simp
next
  case (Cons c cs)
  show ?case
  proof (cases "c = CHR 0x0A")
    case True
    with Cons.prems have "l \<in> set (lines_nl cs)" by (simp add: lines_nl_newline)
    then consider "l = hd (lines_nl cs)" | "l \<in> set (tl (lines_nl cs))"
      using lines_nl_ne [of cs] by (cases "lines_nl cs") auto
    then show ?thesis
    proof cases
      case 1
      from first_line [of cs] obtain r where
        "cs = l @ r" "r = [] \<or> hd r = CHR 0x0A" "CHR 0x0A \<notin> set l"
        unfolding 1 by blast
      with True have "c # cs = [] @ CHR 0x0A # l @ r" by simp
      with \<open>r = [] \<or> hd r = CHR 0x0A\<close> \<open>CHR 0x0A \<notin> set l\<close> show ?thesis by blast
    next
      case 2
      from Cons.IH [OF 2] obtain pre r where
        "cs = pre @ CHR 0x0A # l @ r" "r = [] \<or> hd r = CHR 0x0A" "CHR 0x0A \<notin> set l"
        by blast
      then have "c # cs = (c # pre) @ CHR 0x0A # l @ r" by simp
      with \<open>r = [] \<or> hd r = CHR 0x0A\<close> \<open>CHR 0x0A \<notin> set l\<close> show ?thesis by blast
    qed
  next
    case False
    with Cons.prems have "l \<in> set (tl (lines_nl cs))" by (simp add: lines_nl_Cons)
    from Cons.IH [OF this] obtain pre r where
      "cs = pre @ CHR 0x0A # l @ r" "r = [] \<or> hd r = CHR 0x0A" "CHR 0x0A \<notin> set l"
      by blast
    then have "c # cs = (c # pre) @ CHR 0x0A # l @ r" by simp
    with \<open>r = [] \<or> hd r = CHR 0x0A\<close> \<open>CHR 0x0A \<notin> set l\<close> show ?thesis by blast
  qed
qed

lemma rstrip_decomp: "\<exists>w. x = rstrip x @ w \<and> (\<forall>c \<in> set w. isspace c)"
proof -
  have "rev (dropWhile isspace (rev x)) @ rev (takeWhile isspace (rev x)) =
        rev (takeWhile isspace (rev x) @ dropWhile isspace (rev x))"
    by (simp only: rev_append)
  also have "\<dots> = x"
    by (simp only: takeWhile_dropWhile_id rev_rev_ident)
  finally have "x = rstrip x @ rev (takeWhile isspace (rev x))"
    by (simp add: rstrip_def)
  moreover have "\<forall>c \<in> set (rev (takeWhile isspace (rev x))). isspace c"
    by (auto dest: set_takeWhileD)
  ultimately show ?thesis by blast
qed

lemma strip_decomp:
  "\<exists>w1 w2. l = w1 @ strip l @ w2 \<and> (\<forall>c \<in> set w1. isspace c) \<and> (\<forall>c \<in> set w2. isspace c)"
proof -
  have "l = takeWhile isspace l @ lstrip l" by (simp add: lstrip_def)
  moreover from rstrip_decomp [of "lstrip l"] obtain w where
    "lstrip l = strip l @ w" "\<forall>c \<in> set w. isspace c"
    by (auto simp: strip_def)
  moreover have "\<forall>c \<in> set (takeWhile isspace l). isspace c"
    by (auto dest: set_takeWhileD)
  ultimately have "l = takeWhile isspace l @ strip l @ w \<and>
      (\<forall>c \<in> set (takeWhile isspace l). isspace c) \<and> (\<forall>c \<in> set w. isspace c)"
    by simp
  then show ?thesis by blast
qed

lemma line_tag_here:
  assumes tag: "tag \<noteq> []" "\<forall>c \<in> set tag. \<not> isspace c"
    and l: "strip l = tag" "CHR 0x0A \<notin> set l" and r: "r = [] \<or> hd r = CHR 0x0A"
  shows "tag_here tag (l @ r)"
proof -
  from strip_decomp [of l] obtain w1 w2 where
    d0: "l = w1 @ strip l @ w2" and w1: "\<forall>c \<in> set w1. isspace c"
    and w2: "\<forall>c \<in> set w2. isspace c"
    by blast
  from d0 have d: "l = w1 @ tag @ w2"
    by (simp only: l(1))
  from tag obtain t ts where t: "tag = t # ts" "\<not> isspace t"
    by (cases tag) auto
  have "dropWhile isspace (w1 @ (tag @ w2 @ r)) = dropWhile isspace (tag @ w2 @ r)"
    using w1 by (intro dropWhile_append2) blast
  also have "\<dots> = tag @ w2 @ r"
    by (simp add: t)
  finally have dw: "dropWhile isspace (l @ r) = tag @ (w2 @ r)"
    by (simp add: d)
  let ?P = "\<lambda>c. isspace c \<and> c \<noteq> CHR 0x0A"
  have "set w2 \<subseteq> set l"
    by (subst d) auto
  with l(2) have "CHR 0x0A \<notin> set w2" by blast
  with w2 have allP: "\<And>c. c \<in> set w2 \<Longrightarrow> ?P c" by blast
  then have e1: "dropWhile ?P (w2 @ r) = dropWhile ?P r"
    by (rule dropWhile_append2)
  have "line_end_after (w2 @ r)"
  proof (cases r)
    case Nil
    have e0: "dropWhile ?P w2 = []"
      using allP by simp
    show ?thesis by (simp add: line_end_after_def Nil e0)
  next
    case (Cons x xs)
    with r have x: "x = CHR 0x0A" by simp
    have "dropWhile ?P (w2 @ r) = r"
      unfolding e1 by (simp add: Cons x)
    then show ?thesis by (simp add: line_end_after_def Cons x)
  qed
  then show ?thesis
    by (simp add: tag_here_def dw strip_prefix_append)
qed

lemma search_tag_lines:
  assumes tag: "tag \<noteq> []" "\<forall>c \<in> set tag. \<not> isspace c"
  shows "search_tag tag True s = (\<exists>l \<in> set (lines_nl s). strip l = tag)"
proof
  assume "search_tag tag True s"
  then consider "tag_here tag s" | pre post where "s = pre @ CHR 0x0A # post" "tag_here tag post"
    by (auto simp: search_tag_iff)
  then show "\<exists>l \<in> set (lines_nl s). strip l = tag"
  proof cases
    case 1
    then show ?thesis by (rule tag_here_line [OF tag])
  next
    case 2
    from tag_here_line [OF tag 2(2)] show ?thesis
      by (auto simp: 2(1) lines_nl_append)
  qed
next
  assume "\<exists>l \<in> set (lines_nl s). strip l = tag"
  then obtain l where l: "l \<in> set (lines_nl s)" "strip l = tag" by blast
  then consider "l = hd (lines_nl s)" | "l \<in> set (tl (lines_nl s))"
    using lines_nl_ne [of s] by (cases "lines_nl s") auto
  then show "search_tag tag True s"
  proof cases
    case 1
    from first_line [of s] obtain r where
      r: "s = l @ r" "r = [] \<or> hd r = CHR 0x0A" "CHR 0x0A \<notin> set l"
      unfolding 1 by blast
    from line_tag_here [OF tag l(2) r(3) r(2)] r(1) show ?thesis
      by (simp add: search_tag_iff)
  next
    case 2
    from later_line [OF 2] obtain pre r where
      r: "s = pre @ CHR 0x0A # l @ r" "r = [] \<or> hd r = CHR 0x0A" "CHR 0x0A \<notin> set l"
      by blast
    from line_tag_here [OF tag l(2) r(3) r(2)] r(1) show ?thesis
      by (auto simp: search_tag_iff)
  qed
qed

lemma standalone_iff:
  assumes "tag \<noteq> []" "\<forall>c \<in> set tag. \<not> isspace c"
  shows "search_tag tag True s = standalone_line tag s"
  using search_tag_lines [OF assms] by (simp add: standalone_line_def list_ex_iff)

text \<open>
  C7. A chunk is a real article exactly when each of the three tags \<open>PD\<close>, \<open>SN\<close> and
  \<open>LP\<close> is a standalone line of it. Acceptance depends only on the set of lines, so not
  on their order. \<open>split_factiva_file\<close> returns the blocks that have the three tags, in
  their order, and leaves the others out; it has no error result.
\<close>

theorem real_article_iff_three_tags:
  "(is_real_article block =
     (standalone_line ''PD'' block \<and> standalone_line ''SN'' block \<and> standalone_line ''LP'' block)) \<and>
   (set (lines_nl block) = set (lines_nl block') \<longrightarrow>
      is_real_article block' = is_real_article block) \<and>
   split_factiva_file raw =
     filter (\<lambda>b. standalone_line ''PD'' b \<and> standalone_line ''SN'' b \<and> standalone_line ''LP'' b)
       (article_blocks raw)"
proof -
  have pd: "search_tag ''PD'' True b = standalone_line ''PD'' b" for b
    by (rule standalone_iff) (simp_all add: isspace_def)
  have sn: "search_tag ''SN'' True b = standalone_line ''SN'' b" for b
    by (rule standalone_iff) (simp_all add: isspace_def)
  have lp: "search_tag ''LP'' True b = standalone_line ''LP'' b" for b
    by (rule standalone_iff) (simp_all add: isspace_def)
  have iff: "is_real_article b =
     (standalone_line ''PD'' b \<and> standalone_line ''SN'' b \<and> standalone_line ''LP'' b)" for b
    by (simp add: is_real_article_def pd sn lp)
  have perm: "set (lines_nl block) = set (lines_nl block') \<Longrightarrow>
      is_real_article block' = is_real_article block"
    by (simp add: iff standalone_line_def list_ex_iff)
  have "split_factiva_file raw =
     filter (\<lambda>b. standalone_line ''PD'' b \<and> standalone_line ''SN'' b \<and> standalone_line ''LP'' b)
       (article_blocks raw)"
    unfolding split_factiva_file_def by (rule filter_cong) (simp_all add: iff)
  with iff [of block] perm show ?thesis by blast
qed

theorem real_article_iff_three_tags_witness:
  "set (lines_nl ''HD\<newline>Title\<newline>PD\<newline>SN\<newline>LP'') =
     set (lines_nl ''LP\<newline>Title\<newline>SN\<newline>HD\<newline>PD'') \<and>
   is_real_article ''HD\<newline>Title\<newline>PD\<newline>SN\<newline>LP'' \<and>
   is_real_article ''LP\<newline>Title\<newline>SN\<newline>HD\<newline>PD'' \<and>
   \<not> is_real_article ''HD\<newline>Title\<newline>PD\<newline>SN text\<newline>LP''"
proof -
  let ?a = "''HD\<newline>Title\<newline>PD\<newline>SN\<newline>LP''"
  let ?b = "''LP\<newline>Title\<newline>SN\<newline>HD\<newline>PD''"
  let ?c = "''HD\<newline>Title\<newline>PD\<newline>SN text\<newline>LP''"
  have s: "set (lines_nl ?a) = set (lines_nl ?b)"
    by code_simp
  have a: "standalone_line ''PD'' ?a \<and> standalone_line ''SN'' ?a \<and> standalone_line ''LP'' ?a"
    by code_simp
  have c: "\<not> standalone_line ''SN'' ?c"
    by code_simp
  from real_article_iff_three_tags [of ?a ?b "[]"] a s
  have "is_real_article ?a" "is_real_article ?b"
    by blast+
  moreover from real_article_iff_three_tags [of ?c ?c "[]"] c
  have "\<not> is_real_article ?c"
    by blast
  ultimately show ?thesis using s by blast
qed


section \<open>Properties of the normaliser\<close>

text \<open>The fingerprint of a row, for the rows that have a body.\<close>

definition fp_of :: "(string \<Rightarrow> string) \<Rightarrow> article \<Rightarrow> string" where
  "fp_of md5 row = (case body row of None \<Rightarrow> [] | Some s \<Rightarrow> md5 (lower (strip (collapse_ws s))))"

lemma fingerprints_eq:
  "fingerprints md5 rows =
     (if \<exists>r \<in> set rows. body r = None then Inl TypeError
      else Inr (map (\<lambda>r. (fp_of md5 r, r)) rows))"
  by (induction rows) (auto simp: hash_body_def fp_of_def split: option.splits)

lemma drop_duplicates_later:
  "fp \<in> set seen \<union> fst ` set xs \<Longrightarrow>
     drop_duplicates seen (xs @ (fp, r) # ys) = drop_duplicates seen (xs @ ys)"
proof (induction xs arbitrary: seen)
  case Nil
  then show ?case by simp
next
  case (Cons x xs)
  obtain k rx where x: "x = (k, rx)" by (cases x)
  show ?case
  proof (cases "k \<in> set seen")
    case True
    with Cons.prems x have "fp \<in> set seen \<union> fst ` set xs" by auto
    with Cons.IH [of seen] True x show ?thesis by simp
  next
    case False
    from Cons.prems x have "fp \<in> set (k # seen) \<union> fst ` set xs" by auto
    with Cons.IH [of "k # seen"] False x show ?thesis by simp
  qed
qed

lemma drop_duplicates_first:
  "k \<notin> set seen \<union> fst ` set xs \<Longrightarrow>
     (k, r) \<in> set (drop_duplicates seen (xs @ (k, r) # ys))"
proof (induction xs arbitrary: seen)
  case Nil
  then show ?case by simp
next
  case (Cons x xs)
  obtain k' rx where x: "x = (k', rx)" by (cases x)
  from Cons.prems x have ne: "k \<noteq> k'" and a: "k \<notin> set seen \<union> fst ` set xs"
    and b: "k \<notin> set (k' # seen) \<union> fst ` set xs"
    by auto
  show ?case
    using Cons.IH [OF a] Cons.IH [OF b] by (simp add: x)
qed

lemma drop_duplicates_distinct:
  "distinct (map fst (drop_duplicates seen xs)) \<and>
   fst ` set (drop_duplicates seen xs) \<inter> set seen = {}"
proof (induction xs arbitrary: seen)
  case Nil
  then show ?case by simp
next
  case (Cons x xs)
  obtain k rx where x: "x = (k, rx)" by (cases x)
  show ?case
  proof (cases "k \<in> set seen")
    case True
    with Cons.IH [of seen] x show ?thesis by simp
  next
    case False
    from Cons.IH [of "k # seen"] have
      d: "distinct (map fst (drop_duplicates (k # seen) xs))" and
      i: "fst ` set (drop_duplicates (k # seen) xs) \<inter> set (k # seen) = {}"
      by blast+
    from i have "k \<notin> fst ` set (drop_duplicates (k # seen) xs)"
      and "fst ` set (drop_duplicates (k # seen) xs) \<inter> set seen = {}"
      by auto
    with d False x show ?thesis by auto
  qed
qed

lemma drop_duplicates_subset: "set (drop_duplicates seen xs) \<subseteq> set xs"
  by (induction seen xs rule: drop_duplicates.induct) auto

lemma drop_duplicates_id:
  "distinct (map fst xs) \<Longrightarrow> fst ` set xs \<inter> set seen = {} \<Longrightarrow>
     drop_duplicates seen xs = xs"
proof (induction xs arbitrary: seen)
  case Nil
  then show ?case by simp
next
  case (Cons x xs)
  obtain k rx where x: "x = (k, rx)" by (cases x)
  from Cons.prems x have "k \<notin> set seen" "distinct (map fst xs)"
    "fst ` set xs \<inter> set (k # seen) = {}"
    by auto
  with Cons.IH [of "k # seen"] x show ?case by simp
qed

lemma recompute_fixed:
  assumes "clean_body r0 = b" "r = recompute r0" "clean_body r = body r"
  shows "recompute r = r"
  using assms by (simp add: recompute_def Let_def)

lemma split_ws_space: "isspace c \<Longrightarrow> split_ws (c # cs) = split_ws cs"
  by (simp add: split_ws_def)

lemma split_acc_gen:
  "acc \<noteq> [] \<Longrightarrow>
     split_acc acc s =
       (rev acc @ takeWhile (\<lambda>c. \<not> isspace c) s) # split_ws (dropWhile (\<lambda>c. \<not> isspace c) s)"
proof (induction s arbitrary: acc)
  case Nil
  then show ?case by (simp add: split_ws_def)
next
  case (Cons c cs)
  show ?case
  proof (cases "isspace c")
    case True
    with Cons.prems show ?thesis by (simp add: split_ws_def)
  next
    case False
    have "split_acc (c # acc) cs =
       (rev (c # acc) @ takeWhile (\<lambda>c. \<not> isspace c) cs) # split_ws (dropWhile (\<lambda>c. \<not> isspace c) cs)"
      by (rule Cons.IH) simp
    with False show ?thesis by simp
  qed
qed

lemma split_ws_token:
  "\<not> isspace c \<Longrightarrow>
     split_ws (c # cs) =
       (c # takeWhile (\<lambda>c. \<not> isspace c) cs) # split_ws (dropWhile (\<lambda>c. \<not> isspace c) cs)"
  using split_acc_gen [of "[c]" cs] by (simp add: split_ws_def)

lemma split_ws_lstrip: "split_ws (dropWhile isspace s) = split_ws s"
  by (induction s) (simp_all add: split_ws_space)

lemma collapse_ws_token: "\<not> isspace c \<Longrightarrow> collapse_ws (c # x) = c # collapse_ws x"
  by (cases x) simp_all

lemma collapse_ws_run:
  "\<forall>c \<in> set t. \<not> isspace c \<Longrightarrow> collapse_ws (t @ r) = t @ collapse_ws r"
  by (induction t) (simp_all add: collapse_ws_token)

lemma collapse_ws_space:
  "isspace c \<Longrightarrow> collapse_ws (c # r) = CHR '' '' # collapse_ws (dropWhile isspace r)"
proof (induction r arbitrary: c)
  case Nil
  then show ?case by simp
next
  case (Cons d r)
  show ?case
  proof (cases "isspace d")
    case True
    with Cons.prems Cons.IH [of d] show ?thesis by simp
  next
    case False
    with Cons.prems show ?thesis by simp
  qed
qed

lemma join_Cons: "ys \<noteq> [] \<Longrightarrow> join sep (x # ys) = x @ sep @ join sep ys"
  by (cases ys) simp_all

lemma collapse_ws_words:
  "s = [] \<or> \<not> isspace (hd s) \<Longrightarrow>
     collapse_ws s =
       join '' '' (split_ws s) @ (if s \<noteq> [] \<and> isspace (last s) then '' '' else [])"
proof (induction s rule: length_induct)
  case (1 s)
  show ?case
  proof (cases s)
    case Nil
    then show ?thesis by (simp add: split_ws_def)
  next
    case (Cons c cs)
    with 1(2) have c: "\<not> isspace c" by simp
    define t where "t = c # takeWhile (\<lambda>c. \<not> isspace c) cs"
    define r where "r = dropWhile (\<lambda>c. \<not> isspace c) cs"
    have s: "s = t @ r" by (simp add: t_def r_def Cons)
    have tn: "\<forall>c \<in> set t. \<not> isspace c"
      using c by (auto simp: t_def dest: set_takeWhileD)
    have W: "split_ws s = t # split_ws r"
      unfolding Cons t_def r_def using c by (rule split_ws_token)
    have C: "collapse_ws s = t @ collapse_ws r"
      unfolding s using tn by (rule collapse_ws_run)
    have tne: "t \<noteq> []" "\<not> isspace (last t)"
      using tn by (auto simp: t_def)
    show ?thesis
    proof (cases r)
      case Nil
      with W C s tne show ?thesis by (simp add: split_ws_def)
    next
      case rc: (Cons w r')
      have w: "isspace w"
        using rc hd_dropWhile [of "\<lambda>c. \<not> isspace c" cs] by (simp add: r_def)
      define r2 where "r2 = dropWhile isspace r'"
      have Cr: "collapse_ws r = CHR '' '' # collapse_ws r2"
        unfolding rc r2_def using w by (rule collapse_ws_space)
      have Wr: "split_ws r = split_ws r2"
        using split_ws_lstrip [of r] w by (simp add: rc r2_def)
      have lastr: "last s = last r"
        by (simp add: s rc)
      show ?thesis
      proof (cases r2)
        case Nil
        have "\<forall>c \<in> set r'. isspace c"
          using Nil by (simp add: r2_def)
        with w have "\<forall>c \<in> set r. isspace c" by (simp add: rc)
        then have "isspace (last r)"
          using rc by (metis last_in_set list.distinct(1))
        with W C Cr Wr Nil lastr s tne show ?thesis
          by (simp add: split_ws_def)
      next
        case r2c: (Cons d r2')
        have d: "\<not> isspace d"
          using r2c hd_dropWhile [of isspace r'] by (simp add: r2_def)
        have "length r2 \<le> length r'"
          unfolding r2_def by (rule length_dropWhile_le)
        then have len: "length r2 < length s"
          by (simp add: s rc)
        have IH: "collapse_ws r2 =
           join '' '' (split_ws r2) @ (if r2 \<noteq> [] \<and> isspace (last r2) then '' '' else [])"
          using 1(1) len d r2c by simp
        have ne: "split_ws r2 \<noteq> []"
          using split_ws_token [OF d, of r2'] by (simp add: r2c)
        have "\<exists>p. r = p @ r2"
          unfolding rc r2_def by (metis append_Cons takeWhile_dropWhile_id)
        then have "last r = last r2"
          using r2c by auto
        with lastr have l2: "last s = last r2" by simp
        have J: "join '' '' (split_ws s) = t @ '' '' @ join '' '' (split_ws r2)"
          unfolding W Wr using ne by (rule join_Cons)
        have sne: "s \<noteq> []" "r2 \<noteq> []"
          using tne by (simp_all add: s r2c)
        have "collapse_ws s =
            t @ '' '' @ join '' '' (split_ws r2) @ (if isspace (last r2) then '' '' else [])"
          by (simp add: C Cr IH sne)
        also have "\<dots> = join '' '' (split_ws s) @ (if isspace (last s) then '' '' else [])"
          by (simp add: J l2)
        finally show ?thesis
          by (simp add: sne)
      qed
    qed
  qed
qed

lemma split_ws_tokens:
  "t \<in> set (split_ws s) \<Longrightarrow> t \<noteq> [] \<and> (\<forall>c \<in> set t. \<not> isspace c)"
proof (induction s arbitrary: t rule: length_induct)
  case (1 s)
  show ?case
  proof (cases s)
    case Nil
    with 1(2) show ?thesis by (simp add: split_ws_def)
  next
    case (Cons c cs)
    show ?thesis
    proof (cases "isspace c")
      case True
      with 1(2) Cons have "t \<in> set (split_ws cs)" by (simp add: split_ws_space)
      moreover have "length cs < length s" by (simp add: Cons)
      ultimately show ?thesis using 1(1) by blast
    next
      case False
      have le: "length (dropWhile (\<lambda>c. \<not> isspace c) cs) < length s"
        using length_dropWhile_le [of "\<lambda>c. \<not> isspace c" cs] by (simp add: Cons)
      from 1(2) have "t = c # takeWhile (\<lambda>c. \<not> isspace c) cs \<or>
          t \<in> set (split_ws (dropWhile (\<lambda>c. \<not> isspace c) cs))"
        by (simp add: Cons split_ws_token [OF False])
      then show ?thesis
      proof
        assume "t = c # takeWhile (\<lambda>c. \<not> isspace c) cs"
        with False show ?thesis by (auto dest: set_takeWhileD)
      next
        assume "t \<in> set (split_ws (dropWhile (\<lambda>c. \<not> isspace c) cs))"
        with 1(1) le show ?thesis by blast
      qed
    qed
  qed
qed

lemma join_ends:
  assumes "toks \<noteq> []" "\<forall>t \<in> set toks. t \<noteq> [] \<and> (\<forall>c \<in> set t. \<not> isspace c)"
  shows "join '' '' toks \<noteq> [] \<and> \<not> isspace (hd (join '' '' toks)) \<and>
         \<not> isspace (last (join '' '' toks))"
  using assms
proof (induction toks)
  case Nil
  then show ?case by simp
next
  case (Cons x xs)
  from Cons.prems have x: "x \<noteq> []" "\<not> isspace (hd x)" "\<not> isspace (last x)"
    by (cases x; simp)+
  show ?case
  proof (cases "xs = []")
    case True
    with x show ?thesis by simp
  next
    case False
    with Cons have "join '' '' xs \<noteq> [] \<and> \<not> isspace (last (join '' '' xs))"
      by simp
    moreover have "join '' '' (x # xs) = x @ '' '' @ join '' '' xs"
      using False by (rule join_Cons)
    ultimately show ?thesis using x by simp
  qed
qed

lemma rstrip_ends:
  assumes "j \<noteq> []" "\<not> isspace (last j)" "\<forall>c \<in> set w. isspace c"
  shows "rstrip (j @ w) = j"
proof -
  have "dropWhile isspace (rev w @ rev j) = dropWhile isspace (rev j)"
    using assms(3) by (intro dropWhile_append2) auto
  also have "\<dots> = rev j"
    using assms(1,2) by (cases "rev j") (auto simp: last_rev hd_rev)
  finally show ?thesis by (simp add: rstrip_def)
qed

lemma norm_words: "strip (collapse_ws s) = join '' '' (split_ws s)"
proof -
  define s1 where "s1 = dropWhile isspace s"
  define p where "p = (if s \<noteq> [] \<and> isspace (hd s) then '' '' else [])"
  define sfx where "sfx = (if s1 \<noteq> [] \<and> isspace (last s1) then '' '' else [])"
  define J where "J = join '' '' (split_ws s1)"
  have s1: "s1 = [] \<or> \<not> isspace (hd s1)"
    unfolding s1_def using hd_dropWhile [of isspace s] by blast
  have C1: "collapse_ws s1 = J @ sfx"
    unfolding J_def sfx_def using s1 by (rule collapse_ws_words)
  have C: "collapse_ws s = p @ J @ sfx"
  proof (cases s)
    case Nil
    with C1 show ?thesis by (simp add: p_def s1_def)
  next
    case (Cons c cs)
    show ?thesis
    proof (cases "isspace c")
      case True
      then have "collapse_ws (c # cs) = CHR '' '' # collapse_ws (dropWhile isspace cs)"
        by (rule collapse_ws_space)
      moreover have "s1 = dropWhile isspace cs"
        using True by (simp add: s1_def Cons)
      ultimately show ?thesis
        using C1 True by (simp add: p_def Cons)
    next
      case False
      then have "s1 = s" by (simp add: s1_def Cons)
      with C1 False show ?thesis by (simp add: p_def Cons)
    qed
  qed
  have W: "split_ws s = split_ws s1"
    unfolding s1_def by (rule split_ws_lstrip [symmetric])
  have pw: "\<forall>c \<in> set p. isspace c" "\<forall>c \<in> set sfx. isspace c"
    by (simp_all add: p_def sfx_def isspace_def)
  show ?thesis
  proof (cases "split_ws s1 = []")
    case True
    then have "J = []" by (simp add: J_def)
    then have cs: "collapse_ws s = p @ sfx" by (simp add: C)
    have e: "dropWhile isspace (p @ sfx) = []"
      using pw by simp
    have "strip (collapse_ws s) = rstrip (dropWhile isspace (p @ sfx))"
      by (simp only: strip_def lstrip_def cs)
    also have "\<dots> = []"
      unfolding e by (simp add: rstrip_def)
    finally show ?thesis
      using True W by simp
  next
    case False
    have "\<forall>t \<in> set (split_ws s1). t \<noteq> [] \<and> (\<forall>c \<in> set t. \<not> isspace c)"
      using split_ws_tokens by blast
    from join_ends [OF False this]
    have Jn: "J \<noteq> []" "\<not> isspace (hd J)" "\<not> isspace (last J)"
      by (simp_all add: J_def)
    have "dropWhile isspace (p @ (J @ sfx)) = dropWhile isspace (J @ sfx)"
      using pw(1) by (intro dropWhile_append2) auto
    also have "\<dots> = J @ sfx"
      using Jn by (cases J) auto
    finally have "lstrip (collapse_ws s) = J @ sfx"
      by (simp add: lstrip_def C)
    moreover have "rstrip (J @ sfx) = J"
      using Jn(1,3) pw(2) by (rule rstrip_ends)
    ultimately show ?thesis
      by (simp add: strip_def J_def W)
  qed
qed

lemma lower_append: "lower (x @ y) = lower x @ lower y"
  by (simp add: lower_def)

lemma lower_space: "lower '' '' = '' ''"
  by (simp add: lower_def lower_char_def isupper_def)

lemma lower_join: "lower (join '' '' toks) = join '' '' (map lower toks)"
proof (induction toks)
  case Nil
  then show ?case by (simp add: lower_def)
next
  case (Cons x xs)
  show ?case
  proof (cases "xs = []")
    case True
    then show ?thesis by simp
  next
    case False
    then have j1: "join '' '' (x # xs) = x @ '' '' @ join '' '' xs"
      by (rule join_Cons)
    from False have j2: "join '' '' (lower x # map lower xs) =
        lower x @ '' '' @ join '' '' (map lower xs)"
      by (intro join_Cons) simp
    have "lower (join '' '' (x # xs)) = lower x @ lower '' '' @ lower (join '' '' xs)"
      by (simp only: j1 lower_append)
    also have "\<dots> = lower x @ '' '' @ join '' '' (map lower xs)"
      by (simp only: lower_space Cons.IH)
    also have "\<dots> = join '' '' (map lower (x # xs))"
      using j2 by simp
    finally show ?thesis .
  qed
qed

lemma same_text_norm:
  "same_text x y \<Longrightarrow> lower (strip (collapse_ws x)) = lower (strip (collapse_ws y))"
  by (simp add: same_text_def norm_words lower_join)

lemma body_recompute: "body (recompute r) = clean_body r"
  by (simp add: recompute_def Let_def)

lemma fp_of_recompute:
  "clean_body r = Some x \<Longrightarrow> fp_of md5 (recompute r) = md5 (lower (strip (collapse_ws x)))"
  by (simp add: fp_of_def body_recompute)

lemma main_eq:
  "main md5 df =
     (if \<exists>r \<in> set df. clean_body r = None then Inl TypeError
      else Inr (filter (\<lambda>row. MIN_WORDS \<le> body_words row)
             (map snd (drop_duplicates [] (map (\<lambda>r. (fp_of md5 r, r)) (map recompute df))))))"
  by (simp add: main_def fingerprints_eq body_recompute)

lemma split_ws_word:
  assumes "t \<noteq> []" "\<forall>c \<in> set t. \<not> isspace c"
  shows "split_ws (t @ CHR '' '' # r) = t # split_ws r"
proof -
  from assms obtain c t' where t: "t = c # t'" "\<not> isspace c" "\<forall>c \<in> set t'. \<not> isspace c"
    by (cases t) auto
  have sp: "isspace CHR '' ''" by (simp add: isspace_def)
  have "takeWhile (\<lambda>c. \<not> isspace c) (t' @ CHR '' '' # r) = t'"
    using t(3) sp by (simp add: takeWhile_append2)
  moreover have "dropWhile (\<lambda>c. \<not> isspace c) (t' @ CHR '' '' # r) = CHR '' '' # r"
    using t(3) sp by (simp add: dropWhile_append2)
  ultimately have "split_ws (c # t' @ CHR '' '' # r) = (c # t') # split_ws (CHR '' '' # r)"
    using split_ws_token [OF t(2), of "t' @ CHR '' '' # r"] by simp
  then show ?thesis
    using sp by (simp add: t(1) split_ws_space)
qed

lemma main_single:
  "main md5 [r] =
     (case clean_body r of
        None \<Rightarrow> Inl TypeError
      | Some s \<Rightarrow>
          Inr (if MIN_WORDS \<le> word_runs False s
               then [r\<lparr>body := Some s, body_words := word_runs False s, body_len := length s\<rparr>]
               else []))"
  by (simp add: main_eq recompute_def Let_def word_count_def split: option.splits)

lemma clean_body_cong:
  "body r' = body r \<Longrightarrow> outlet r' = outlet r \<Longrightarrow> clean_body r' = clean_body r"
  by (simp add: clean_body_def)

lemma sample_clean: "strip_boilerplate_lines (Some hundred_words) = Some hundred_words"
  by code_simp

lemma sample_clean_variant:
  "strip_boilerplate_lines (Some hundred_words_variant) = Some hundred_words_variant"
  by code_simp

lemma sample_words: "word_runs False hundred_words = 100"
  by code_simp

lemma sample_length: "length hundred_words = 200"
  by code_simp

lemma lower_outlets: "lower ''wsj'' \<noteq> ''nyp''" "lower ''nyt'' \<noteq> ''nyp''" "lower ''nyp'' = ''nyp''"
  by code_simp+

lemma sample_same_text: "same_text hundred_words hundred_words_variant"
proof -
  have "split_ws hundred_words = ''w'' # split_ws (concat (replicate 99 ''w ''))"
    unfolding hundred_words_def
    using split_ws_word [of "''w''" "concat (replicate 99 ''w '')"]
    by (simp add: isspace_def)
  moreover have "split_ws hundred_words_variant = ''W'' # split_ws (concat (replicate 99 ''w ''))"
    unfolding hundred_words_variant_def
    using split_ws_word [of "''W''" "concat (replicate 99 ''w '')"]
    by (simp add: isspace_def split_ws_space)
  moreover have "lower ''W'' = lower ''w''"
    by code_simp
  ultimately show ?thesis
    by (simp add: same_text_def)
qed

lemma bulleted_twice_clean:
  "strip_boilerplate_lines (Some bulleted_twice) = Some bulleted_twice"
  by code_simp

lemma bulleted_once_clean:
  "strip_boilerplate_lines (Some bulleted_once) = Some bulleted_once"
  by code_simp

lemma nyp_sub_no_newline: "CHR 0x0A \<notin> set s \<Longrightarrow> nyp_sub False s = s"
  by (induction s) auto

lemma hundred_words_no_newline: "CHR 0x0A \<notin> set hundred_words"
  by (simp add: hundred_words_def)

lemma bullet_twice: "nyp_sub True bulleted_twice = bulleted_once"
proof -
  have "bullet_at bulleted_twice = Some (False, bulleted_once)"
    by (simp add: bullet_at_def bulleted_twice_def bulleted_once_def hundred_words_def isspace_def)
  moreover have "CHR 0x0A \<notin> set bulleted_once"
    using hundred_words_no_newline by (simp add: bulleted_once_def)
  ultimately show ?thesis
    by (simp add: bulleted_twice_def nyp_sub_no_newline)
qed

lemma bullet_once: "nyp_sub True bulleted_once = hundred_words"
proof -
  have "bullet_at bulleted_once = Some (False, hundred_words)"
    by (simp add: bullet_at_def bulleted_once_def hundred_words_def isspace_def)
  then show ?thesis
    using hundred_words_no_newline by (simp add: bulleted_once_def nyp_sub_no_newline)
qed

lemma bulleted_once_words: "word_runs False bulleted_once = 101"
  by (simp add: bulleted_once_def sample_words isword_def isupper_def islower_def isdigit_def)

lemma bulleted_once_length: "length bulleted_once = 203"
  by (simp add: bulleted_once_def sample_length)

text \<open>
  C8, as the code has it, for records whose outlet and body are ASCII text. When the
  cleaned bodies of two records are equal up to letter case and whitespace runs, their
  fingerprints are equal and the later record is dropped: the result is what it would
  be without that record. The earlier record is retained when the run returns, no
  record before it has its fingerprint and its cleaned body has at least \<open>MIN_WORDS\<close>
  words.
\<close>

theorem duplicate_body_dropped:
  assumes asc: "\<forall>r \<in> set (pre @ a # mid @ b # post). ascii_row r"
    and a: "clean_body a = Some x" and b: "clean_body b = Some y" and st: "same_text x y"
  shows "hash_body md5 (Some x) = hash_body md5 (Some y) \<and>
         main md5 (pre @ a # mid @ b # post) = main md5 (pre @ a # mid @ post) \<and>
         (main md5 (pre @ a # mid @ b # post) = Inr out \<and>
          (\<forall>r \<in> set pre. hash_body md5 (clean_body r) \<noteq> hash_body md5 (Some x)) \<and>
          MIN_WORDS \<le> word_count (Some x) \<longrightarrow> recompute a \<in> set out)"
proof (intro conjI impI)
  from st have n: "lower (strip (collapse_ws x)) = lower (strip (collapse_ws y))"
    by (rule same_text_norm)
  then show "hash_body md5 (Some x) = hash_body md5 (Some y)"
    by (simp add: hash_body_def)
  let ?g = "\<lambda>r. (fp_of md5 r, r)"
  let ?xs = "map ?g (map recompute (pre @ a # mid))"
  have fa: "fp_of md5 (recompute a) = fp_of md5 (recompute b)"
    using n by (simp add: fp_of_recompute [OF a] fp_of_recompute [OF b])
  have "fp_of md5 (recompute b) \<in> set [] \<union> fst ` set ?xs"
    using fa by (simp add: image_iff)
  from drop_duplicates_later [OF this, of "recompute b" "map ?g (map recompute post)"]
  have dd: "drop_duplicates [] (map ?g (map recompute (pre @ a # mid @ b # post))) =
        drop_duplicates [] (map ?g (map recompute (pre @ a # mid @ post)))"
    by simp
  have ex: "(\<exists>r \<in> set (pre @ a # mid @ b # post). clean_body r = None) =
        (\<exists>r \<in> set (pre @ a # mid @ post). clean_body r = None)"
    using b by auto
  show "main md5 (pre @ a # mid @ b # post) = main md5 (pre @ a # mid @ post)"
    unfolding main_eq dd ex ..
next
  assume h: "main md5 (pre @ a # mid @ b # post) = Inr out \<and>
          (\<forall>r \<in> set pre. hash_body md5 (clean_body r) \<noteq> hash_body md5 (Some x)) \<and>
          MIN_WORDS \<le> word_count (Some x)"
  let ?g = "\<lambda>r. (fp_of md5 r, r)"
  let ?df = "pre @ a # mid @ b # post"
  from h have none: "\<not> (\<exists>r \<in> set ?df. clean_body r = None)"
    and out: "out = filter (\<lambda>row. MIN_WORDS \<le> body_words row)
             (map snd (drop_duplicates [] (map ?g (map recompute ?df))))"
    by (auto simp: main_eq split: if_splits)
  have "fp_of md5 (recompute a) \<notin> fst ` set (map ?g (map recompute pre))"
  proof
    assume "fp_of md5 (recompute a) \<in> fst ` set (map ?g (map recompute pre))"
    then obtain r where r: "r \<in> set pre" "fp_of md5 (recompute r) = fp_of md5 (recompute a)"
      by auto
    with none obtain z where z: "clean_body r = Some z" by auto
    from r(2) have "md5 (lower (strip (collapse_ws z))) = md5 (lower (strip (collapse_ws x)))"
      by (simp add: fp_of_recompute [OF a] fp_of_recompute [OF z])
    then have "hash_body md5 (clean_body r) = hash_body md5 (Some x)"
      by (simp add: hash_body_def z)
    with h r(1) show False by blast
  qed
  then have "fp_of md5 (recompute a) \<notin> set [] \<union> fst ` set (map ?g (map recompute pre))"
    by simp
  from drop_duplicates_first [OF this, of "recompute a" "map ?g (map recompute (mid @ b # post))"]
  have "recompute a \<in> set (map snd (drop_duplicates [] (map ?g (map recompute ?df))))"
    by (simp add: image_iff) force
  moreover have "MIN_WORDS \<le> body_words (recompute a)"
    using h a by (simp add: recompute_def Let_def)
  ultimately show "recompute a \<in> set out"
    by (simp add: out)
qed

theorem duplicate_body_dropped_witness:
  "ascii hundred_words \<and> ascii hundred_words_variant \<and>
   clean_body \<lparr>year = 2000, theme = ''t'', outlet = ''wsj'',
      body = Some hundred_words, body_words = 0, body_len = 0\<rparr> = Some hundred_words \<and>
   clean_body \<lparr>year = 2000, theme = ''t'', outlet = ''nyt'',
      body = Some hundred_words_variant, body_words = 0, body_len = 0\<rparr> =
     Some hundred_words_variant \<and>
   same_text hundred_words hundred_words_variant \<and>
   MIN_WORDS \<le> word_count (Some hundred_words) \<and>
   hash_body (\<lambda>s. s) (Some hundred_words) = hash_body (\<lambda>s. s) (Some hundred_words_variant) \<and>
   main (\<lambda>s. s)
     [\<lparr>year = 2000, theme = ''t'', outlet = ''wsj'',
        body = Some hundred_words, body_words = 0, body_len = 0\<rparr>,
      \<lparr>year = 2000, theme = ''t'', outlet = ''nyt'',
        body = Some hundred_words_variant, body_words = 0, body_len = 0\<rparr>] =
   Inr [\<lparr>year = 2000, theme = ''t'', outlet = ''wsj'',
        body = Some hundred_words, body_words = 100, body_len = 200\<rparr>]"
proof -
  let ?a = "\<lparr>year = 2000, theme = ''t'', outlet = ''wsj'', body = Some hundred_words,
             body_words = 0, body_len = 0\<rparr>"
  let ?b = "\<lparr>year = 2000, theme = ''t'', outlet = ''nyt'', body = Some hundred_words_variant,
             body_words = 0, body_len = 0\<rparr>"
  let ?a' = "\<lparr>year = 2000, theme = ''t'', outlet = ''wsj'', body = Some hundred_words,
             body_words = 100, body_len = 200\<rparr>"
  have a: "clean_body ?a = Some hundred_words"
    by (simp add: clean_body_def Let_def lower_outlets sample_clean)
  have b: "clean_body ?b = Some hundred_words_variant"
    by (simp add: clean_body_def Let_def lower_outlets sample_clean_variant)
  note st = sample_same_text
  have w: "MIN_WORDS \<le> word_count (Some hundred_words)"
    by (simp add: word_count_def sample_words MIN_WORDS_def)
  have m1: "main (\<lambda>s. s) [?a] = Inr [?a']"
    by (simp add: main_single a sample_words sample_length MIN_WORDS_def)
  have "ascii hundred_words" "ascii hundred_words_variant" "ascii ''wsj''" "ascii ''nyt''"
    by (simp_all add: ascii_def hundred_words_def hundred_words_variant_def list_all_iff)
  then have asc: "\<forall>r \<in> set ([] @ ?a # [] @ ?b # []). ascii_row r"
    by (simp add: ascii_row_def)
  from duplicate_body_dropped [OF asc a b st, of "\<lambda>s. s" "[?a']"]
  have h: "hash_body (\<lambda>s. s) (Some hundred_words) = hash_body (\<lambda>s. s) (Some hundred_words_variant)"
    and m: "main (\<lambda>s. s) [?a, ?b] = main (\<lambda>s. s) [?a]"
    by simp_all
  from m m1 have "main (\<lambda>s. s) [?a, ?b] = Inr [?a']" by simp
  with a b st w h \<open>ascii hundred_words\<close> \<open>ascii hundred_words_variant\<close> show ?thesis by blast
qed

text \<open>
  The claim as written says that the earlier record is retained. Two records with the
  same short body are both dropped: the later one as a duplicate, the earlier one by
  the word minimum.
\<close>

theorem duplicate_body_dropped_counterexample:
  "same_text ''Hello world'' ''hello   WORLD'' \<and>
   main (\<lambda>s. s)
     [\<lparr>year = 2000, theme = ''t'', outlet = ''wsj'', body = Some ''Hello world'',
        body_words = 0, body_len = 0\<rparr>,
      \<lparr>year = 2000, theme = ''t'', outlet = ''wsj'', body = Some ''hello   WORLD'',
        body_words = 0, body_len = 0\<rparr>] = Inr []"
  by code_simp

text \<open>
  C9, as the code has it. A second pass over the records one pass returned changes
  nothing when the cleaning of a body leaves each of these bodies as it is: no record
  is dropped, and bodies, word counts and lengths are the same.
\<close>

theorem second_pass_unchanged:
  assumes m: "main md5 df = Inr out" and fixed: "\<forall>r \<in> set out. clean_body r = body r"
  shows "main md5 out = Inr out"
proof -
  let ?g = "\<lambda>r. (fp_of md5 r, r)"
  let ?P = "\<lambda>row. MIN_WORDS \<le> body_words row"
  let ?dd = "drop_duplicates [] (map ?g (map recompute df))"
  from m have none: "\<not> (\<exists>r \<in> set df. clean_body r = None)"
    and out: "out = filter ?P (map snd ?dd)"
    by (auto simp: main_eq split: if_splits)
  have sub: "set ?dd \<subseteq> set (map ?g (map recompute df))"
    by (rule drop_duplicates_subset)
  have pairs: "\<And>p. p \<in> set ?dd \<Longrightarrow> fst p = fp_of md5 (snd p)"
    using sub by auto
  have rec: "recompute r = r" if "r \<in> set out" for r
  proof -
    from that have "r \<in> snd ` set ?dd" by (auto simp: out)
    with sub obtain r0 where "r = recompute r0" by auto
    moreover from fixed that have "clean_body r = body r" by blast
    ultimately show ?thesis
      by (simp add: recompute_def Let_def)
  qed
  then have mr: "map recompute out = out"
    by (simp add: map_idI)
  have nn: "\<not> (\<exists>r \<in> set out. clean_body r = None)"
  proof
    assume "\<exists>r \<in> set out. clean_body r = None"
    then obtain r where r: "r \<in> set out" "clean_body r = None" by blast
    then have "r \<in> snd ` set ?dd" by (auto simp: out)
    with sub obtain r0 where r0: "r0 \<in> set df" "r = recompute r0" by auto
    from fixed r have "body r = None" by simp
    with r0 have "clean_body r0 = None" by (simp add: body_recompute)
    with none r0(1) show False by blast
  qed
  have e: "map (fp_of md5) (map snd ?dd) = map fst ?dd"
    using pairs by (simp add: map_eq_conv)
  have d: "distinct (map fst ?dd)"
    using drop_duplicates_distinct [of "[]" "map ?g (map recompute df)"] by blast
  have "distinct (map (fp_of md5) (map snd ?dd))"
    unfolding e by (rule d)
  then have "distinct (map (fp_of md5) out)"
    unfolding out by (rule distinct_map_filter)
  then have "distinct (map fst (map ?g out))"
    by (simp add: comp_def)
  then have "drop_duplicates [] (map ?g out) = map ?g out"
    by (rule drop_duplicates_id) simp
  then have "map snd (drop_duplicates [] (map ?g (map recompute out))) = out"
    by (simp add: mr comp_def)
  moreover have "filter ?P out = out"
    by (simp add: out)
  ultimately show ?thesis
    using nn by (simp add: main_eq)
qed

theorem second_pass_unchanged_witness:
  "main (\<lambda>s. s)
     [\<lparr>year = 2000, theme = ''t'', outlet = ''wsj'',
        body = Some hundred_words, body_words = 0, body_len = 0\<rparr>] =
   Inr [\<lparr>year = 2000, theme = ''t'', outlet = ''wsj'',
        body = Some hundred_words, body_words = 100, body_len = 200\<rparr>] \<and>
   main (\<lambda>s. s)
     [\<lparr>year = 2000, theme = ''t'', outlet = ''wsj'',
        body = Some hundred_words, body_words = 100, body_len = 200\<rparr>] =
   Inr [\<lparr>year = 2000, theme = ''t'', outlet = ''wsj'',
        body = Some hundred_words, body_words = 100, body_len = 200\<rparr>]"
proof -
  let ?a = "\<lparr>year = 2000, theme = ''t'', outlet = ''wsj'', body = Some hundred_words,
             body_words = 0, body_len = 0\<rparr>"
  let ?a' = "\<lparr>year = 2000, theme = ''t'', outlet = ''wsj'', body = Some hundred_words,
             body_words = 100, body_len = 200\<rparr>"
  have a: "clean_body ?a = Some hundred_words"
    by (simp add: clean_body_def Let_def lower_outlets sample_clean)
  have m1: "main (\<lambda>s. s) [?a] = Inr [?a']"
    by (simp add: main_single a sample_words sample_length MIN_WORDS_def)
  have "clean_body ?a' = body ?a'"
    by (simp add: clean_body_def Let_def lower_outlets sample_clean)
  then have f: "\<forall>r \<in> set [?a']. clean_body r = body r" by simp
  from second_pass_unchanged [OF m1 f] m1 show ?thesis by (rule conjI [rotated])
qed
text \<open>
  The claim as written says that a second pass never changes anything. The bullet
  marker is removed once per line start and pass: a body of the outlet \<open>nyp\<close> that
  starts with the marker twice keeps one marker after the first pass and loses it in
  the second.
\<close>

theorem second_pass_unchanged_counterexample:
  "main (\<lambda>s. s)
     [\<lparr>year = 2000, theme = ''t'', outlet = ''nyp'',
        body = Some bulleted_twice, body_words = 0, body_len = 0\<rparr>] =
   Inr [\<lparr>year = 2000, theme = ''t'', outlet = ''nyp'',
        body = Some bulleted_once, body_words = 101, body_len = 203\<rparr>] \<and>
   main (\<lambda>s. s)
     [\<lparr>year = 2000, theme = ''t'', outlet = ''nyp'',
        body = Some bulleted_once, body_words = 101, body_len = 203\<rparr>] =
   Inr [\<lparr>year = 2000, theme = ''t'', outlet = ''nyp'',
        body = Some hundred_words, body_words = 100, body_len = 200\<rparr>] \<and>
   bulleted_once \<noteq> hundred_words"
proof -
  have c1: "clean_body \<lparr>year = 2000, theme = ''t'', outlet = ''nyp'',
        body = Some bulleted_twice, body_words = 0, body_len = 0\<rparr> = Some bulleted_once"
    by (simp add: clean_body_def Let_def lower_outlets bulleted_twice_clean
        normalize_nyp_bullets_def bullet_twice)
  have c2: "clean_body \<lparr>year = 2000, theme = ''t'', outlet = ''nyp'',
        body = Some bulleted_once, body_words = 101, body_len = 203\<rparr> = Some hundred_words"
    by (simp add: clean_body_def Let_def lower_outlets bulleted_once_clean
        normalize_nyp_bullets_def bullet_once)
  have ne: "bulleted_once \<noteq> hundred_words"
    using bulleted_once_length sample_length by auto
  show ?thesis
    by (simp add: main_single c1 c2 bulleted_once_words bulleted_once_length sample_words
        sample_length MIN_WORDS_def ne)
qed

section \<open>Properties: sequence indices\<close>











text \<open>
  The hypotheses of well-formedness are needed. A match of the honorific pattern with
  no text after it adds no row and still advances the count, so the next row skips a
  number; a speaker line right after a speaker line that has collected no text
  replaces the pending speaker, and no row is emitted for it.
\<close>

lemma honorific_rows_skip:
  "strip raw = [] \<Longrightarrow> honorific_rows did i ((m, raw) # ms) = honorific_rows did (Suc i) ms"
  by (simp add: replace_newlines_def)

lemma honorific_gap_example:
  "map utterance_id
     (honorific_rows did 0 [((None, ''Smith''), ''a''), ((None, ''Jones''), ''''), ((None, ''Lee''), ''b'')]) =
   [1, 3]"
  by (simp add: replace_newlines_def strip_def lstrip_def rstrip_def isspace_def)



end
